theory Spec2Isabelle
  imports Main "HOL-Library.Word"
begin

unbundle bit_operations_syntax

section \<open>The search strategies of \<open>include/rmi/util/search.hpp\<close>\<close>

text \<open>
  The header defines eleven functors, each with one call operator
  \<open>operator()(first, last, pred, value)\<close> over random-access iterators, the helper
  \<open>bsr\<close> and the global variable \<open>MINUS_ONE\<close>.

  Iterators are modelled as integer positions into the array they point into, so
  \<open>first + step\<close>, \<open>--runner\<close> and \<open>curr -= bound\<close> are integer arithmetic and a position
  before the array is a negative number; only reading through a position outside the
  array is an error. The array the caller owns is the list \<open>mem\<close>;
  the range handed to a strategy is the positions \<open>first\<close> up to, not including, \<open>lst\<close>,
  and may be a window of a longer array. The parameters \<open>last\<close>, \<open>pred\<close> and \<open>value\<close> of the
  source are written \<open>lst\<close>, \<open>prd\<close> and \<open>val\<close>.

  The program state a call can see is the array and the global \<open>MINUS_ONE\<close>
  (\<open>intptr_t MINUS_ONE = -1;\<close>, not declared \<open>const\<close>). Every strategy takes the state and
  returns its result together with the state it leaves behind.
\<close>

subsection \<open>State, errors and reads\<close>

record 'a machine =
  mem :: "'a list"
  MINUS_ONE :: int

text \<open>
  Dereferencing a position outside the array, and shifting by a negative count, are
  undefined behaviour in C++; the model returns them as error values.
\<close>

datatype error = OutOfBounds int | UndefinedShift int

type_synonym 'a outcome = "(error + int) \<times> 'a machine"

definition deref :: "'a machine \<Rightarrow> int \<Rightarrow> error + 'a" where
  "deref s p =
     (if 0 \<le> p \<and> p < int (length (mem s)) then Inr (mem s ! nat p) else Inl (OutOfBounds p))"

subsection \<open>\<open>LinearSearch\<close>\<close>

text \<open>
  \<^verbatim>\<open>for (; runner != last; ++runner) if (*runner >= value) return runner; return last;\<close>
\<close>

function LinearSearch_loop :: "'a::linorder machine \<Rightarrow> int \<Rightarrow> int \<Rightarrow> 'a \<Rightarrow> 'a outcome" where
  "LinearSearch_loop s runner lst val =
     (if runner \<noteq> lst then
        (case deref s runner of
           Inl e \<Rightarrow> (Inl e, s)
         | Inr x \<Rightarrow>
             if x \<ge> val then (Inr runner, s)
             else LinearSearch_loop s (runner + 1) lst val)
      else (Inr lst, s))"
  by pat_completeness auto
termination
  by (relation "measure (\<lambda>(s, runner, lst, val). nat (int (length (mem s)) - runner))")
     (auto simp: deref_def split: if_splits)

declare LinearSearch_loop.simps [simp del]

definition LinearSearch :: "'a::linorder machine \<Rightarrow> int \<Rightarrow> int \<Rightarrow> int \<Rightarrow> 'a \<Rightarrow> 'a outcome" where
  "LinearSearch s first lst prd val = LinearSearch_loop s first lst val"

subsection \<open>\<open>ModelBiasedLinearSearch\<close>\<close>

text \<open>
  The right scan, \<^verbatim>\<open>for (; runner < last; ++runner) if (*runner >= value) return runner;\<close>
  followed by \<^verbatim>\<open>return last;\<close>, and the left scan,
  \<^verbatim>\<open>for (; runner >= first; --runner) if (*runner < value) return ++runner;\<close>
  followed by \<^verbatim>\<open>return first;\<close>.
\<close>

function ModelBiasedLinearSearch_right ::
  "'a::linorder machine \<Rightarrow> int \<Rightarrow> int \<Rightarrow> 'a \<Rightarrow> 'a outcome" where
  "ModelBiasedLinearSearch_right s runner lst val =
     (if runner < lst then
        (case deref s runner of
           Inl e \<Rightarrow> (Inl e, s)
         | Inr x \<Rightarrow>
             if x \<ge> val then (Inr runner, s)
             else ModelBiasedLinearSearch_right s (runner + 1) lst val)
      else (Inr lst, s))"
  by pat_completeness auto
termination
  by (relation "measure (\<lambda>(s, runner, lst, val). nat (lst - runner))") auto

declare ModelBiasedLinearSearch_right.simps [simp del]

function ModelBiasedLinearSearch_left ::
  "'a::linorder machine \<Rightarrow> int \<Rightarrow> int \<Rightarrow> 'a \<Rightarrow> 'a outcome" where
  "ModelBiasedLinearSearch_left s runner first val =
     (if runner \<ge> first then
        (case deref s runner of
           Inl e \<Rightarrow> (Inl e, s)
         | Inr x \<Rightarrow>
             if x < val then (Inr (runner + 1), s)
             else ModelBiasedLinearSearch_left s (runner - 1) first val)
      else (Inr first, s))"
  by pat_completeness auto
termination
  by (relation "measure (\<lambda>(s, runner, first, val). nat (runner - first + 1))") auto

declare ModelBiasedLinearSearch_left.simps [simp del]

definition ModelBiasedLinearSearch ::
  "'a::linorder machine \<Rightarrow> int \<Rightarrow> int \<Rightarrow> int \<Rightarrow> 'a \<Rightarrow> 'a outcome" where
  "ModelBiasedLinearSearch s first lst prd val =
     (case deref s prd of
        Inl e \<Rightarrow> (Inl e, s)
      | Inr x \<Rightarrow>
          if x < val then ModelBiasedLinearSearch_right s prd lst val
          else ModelBiasedLinearSearch_left s prd first val)"

subsection \<open>\<open>std::lower_bound\<close>, \<open>BinarySearch\<close> and \<open>ModelBiasedBinarySearch\<close>\<close>

text \<open>
  \<open>std::lower_bound\<close> belongs to the C++ standard library, not to the repository. It is
  modelled by the algorithm of the library implementations (libstdc++ and libc++ agree):
  \<^verbatim>\<open>len = last - first; while (len > 0) { half = len >> 1; middle = first + half;\<close>
  \<^verbatim>\<open>if (*middle < value) { first = middle + 1; len = len - half - 1; } else len = half; }\<close>
  \<^verbatim>\<open>return first;\<close>
\<close>

function lower_bound_loop :: "'a::linorder machine \<Rightarrow> int \<Rightarrow> int \<Rightarrow> 'a \<Rightarrow> 'a outcome" where
  "lower_bound_loop s first len val =
     (if len > 0 then
        (case deref s (first + len div 2) of
           Inl e \<Rightarrow> (Inl e, s)
         | Inr x \<Rightarrow>
             if x < val then lower_bound_loop s (first + len div 2 + 1) (len - len div 2 - 1) val
             else lower_bound_loop s first (len div 2) val)
      else (Inr first, s))"
  by pat_completeness auto
termination
  by (relation "measure (\<lambda>(s, first, len, val). nat len)") auto

declare lower_bound_loop.simps [simp del]

definition lower_bound :: "'a::linorder machine \<Rightarrow> int \<Rightarrow> int \<Rightarrow> 'a \<Rightarrow> 'a outcome" where
  "lower_bound s first lst val = lower_bound_loop s first (lst - first) val"

definition BinarySearch :: "'a::linorder machine \<Rightarrow> int \<Rightarrow> int \<Rightarrow> int \<Rightarrow> 'a \<Rightarrow> 'a outcome" where
  "BinarySearch s first lst prd val = lower_bound s first lst val"

definition ModelBiasedBinarySearch ::
  "'a::linorder machine \<Rightarrow> int \<Rightarrow> int \<Rightarrow> int \<Rightarrow> 'a \<Rightarrow> 'a outcome" where
  "ModelBiasedBinarySearch s first lst prd val =
     (case deref s prd of
        Inl e \<Rightarrow> (Inl e, s)
      | Inr x \<Rightarrow> if x < val then lower_bound s prd lst val else lower_bound s first prd val)"

subsection \<open>\<open>ExponentialSearch\<close> and \<open>ModelBiasedExponentialSearch\<close>\<close>

text \<open>
  The doubling loop
  \<^verbatim>\<open>while (curr < last and *curr < value) { bound *= 2; prev = curr; curr += bound; }\<close>
  does not end from every state: with \<open>bound = 0\<close> it probes the same position for ever.
  It is therefore a partial function whose value \<open>None\<close> stands for a call that does not
  return. \<open>bound\<close> is a \<open>std::size_t\<close>; it is modelled as a natural number, since it is at
  most the distance between two positions of one array when it is doubled, far below
  \<open>2 ^ 64\<close>. The loop returns the pair \<open>(prev, curr)\<close>; \<open>curr\<close> is written \<open>cur\<close>.
\<close>

partial_function (option) ExponentialSearch_loop ::
  "'a::linorder machine \<Rightarrow> nat \<Rightarrow> int \<Rightarrow> int \<Rightarrow> int \<Rightarrow> 'a \<Rightarrow>
     ((error + int \<times> int) \<times> 'a machine) option" where
  "ExponentialSearch_loop s bound prev cur lst val =
     (if cur < lst then
        (case deref s cur of
           Inl e \<Rightarrow> Some (Inl e, s)
         | Inr x \<Rightarrow>
             if x < val
             then ExponentialSearch_loop s (bound * 2) cur (cur + int (bound * 2)) lst val
             else Some (Inr (prev, cur), s))
      else Some (Inr (prev, cur), s))"

declare ExponentialSearch_loop.simps [code]

text \<open>
  \<^verbatim>\<open>while (curr > first and *curr >= value) { bound *= 2; prev = curr; curr -= bound; }\<close>
\<close>

partial_function (option) ModelBiasedExponentialSearch_left ::
  "'a::linorder machine \<Rightarrow> nat \<Rightarrow> int \<Rightarrow> int \<Rightarrow> int \<Rightarrow> 'a \<Rightarrow>
     ((error + int \<times> int) \<times> 'a machine) option" where
  "ModelBiasedExponentialSearch_left s bound prev cur first val =
     (if cur > first then
        (case deref s cur of
           Inl e \<Rightarrow> Some (Inl e, s)
         | Inr x \<Rightarrow>
             if x \<ge> val
             then ModelBiasedExponentialSearch_left s (bound * 2) cur (cur - int (bound * 2)) first val
             else Some (Inr (prev, cur), s))
      else Some (Inr (prev, cur), s))"

declare ModelBiasedExponentialSearch_left.simps [code]

definition ExponentialSearch ::
  "'a::linorder machine \<Rightarrow> int \<Rightarrow> int \<Rightarrow> int \<Rightarrow> 'a \<Rightarrow> 'a outcome option" where
  "ExponentialSearch s first lst prd val =
     (case deref s first of
        Inl e \<Rightarrow> Some (Inl e, s)
      | Inr x \<Rightarrow>
          if x \<ge> val then Some (Inr first, s)
          else
            (case ExponentialSearch_loop s 1 first (first + 1) lst val of
               None \<Rightarrow> None
             | Some (Inl e, s') \<Rightarrow> Some (Inl e, s')
             | Some (Inr (prev, cur), s') \<Rightarrow>
                 Some (lower_bound s' prev (min (cur + 1) lst) val)))"

definition ModelBiasedExponentialSearch ::
  "'a::linorder machine \<Rightarrow> int \<Rightarrow> int \<Rightarrow> int \<Rightarrow> 'a \<Rightarrow> 'a outcome option" where
  "ModelBiasedExponentialSearch s first lst prd val =
     (case deref s prd of
        Inl e \<Rightarrow> Some (Inl e, s)
      | Inr x \<Rightarrow>
          if x < val then
            (case ExponentialSearch_loop s 1 prd (prd + 1) lst val of
               None \<Rightarrow> None
             | Some (Inl e, s') \<Rightarrow> Some (Inl e, s')
             | Some (Inr (prev, cur), s') \<Rightarrow>
                 Some (lower_bound s' prev (min (cur + 1) lst) val))
          else
            (case ModelBiasedExponentialSearch_left s 1 prd (prd - 1) first val of
               None \<Rightarrow> None
             | Some (Inl e, s') \<Rightarrow> Some (Inl e, s')
             | Some (Inr (prev, cur), s') \<Rightarrow>
                 Some (lower_bound s' (max first cur) prev val)))"

subsection \<open>\<open>LinearSearch_SIMD\<close> and \<open>ModelBiasedLinearSearch_SIMD\<close>\<close>

text \<open>
  The vector code works on eight lanes of 64 bits (\<open>step = 8\<close>, \<open>__mmask8\<close>,
  \<open>_mm512_cmplt_epi64_mask\<close>), so its element type is a 64-bit integer; the elements are
  modelled as \<open>64 word\<close>, compared unsigned by \<open><\<close> as \<open>uint64_t\<close> keys are.

  \<^item> \<open>_mm512_loadu_si512(&data[i])\<close> reads the eight elements at \<open>data + i\<close>, ...,
    \<open>data + i + 7\<close>, whatever the length of the range is.
  \<^item> \<open>_mm512_set1_epi32(value)\<close> converts \<open>value\<close> to a 32-bit \<open>int\<close> and writes it into
    each of the sixteen 32-bit lanes; read as 64-bit lanes, each lane holds the low
    32 bits of \<open>value\<close> twice.
  \<^item> \<open>_mm512_cmplt_epi64_mask(a, b)\<close> sets bit \<open>j\<close> of the mask when lane \<open>j\<close> of \<open>a\<close> is
    less than lane \<open>j\<close> of \<open>b\<close> as signed 64-bit integers.
  \<^item> \<open>__builtin_ctz\<close> counts the zero bits below the lowest set bit; the code calls it on
    a mask that is not zero.
\<close>

fun load_lanes :: "'a machine \<Rightarrow> int \<Rightarrow> nat \<Rightarrow> error + 'a list" where
  "load_lanes s p 0 = Inr []"
| "load_lanes s p (Suc k) =
     (case deref s p of
        Inl e \<Rightarrow> Inl e
      | Inr x \<Rightarrow> (case load_lanes s (p + 1) k of Inl e \<Rightarrow> Inl e | Inr xs \<Rightarrow> Inr (x # xs)))"

definition mm512_loadu_si512 :: "'a machine \<Rightarrow> int \<Rightarrow> error + 'a list" where
  "mm512_loadu_si512 s p = load_lanes s p 8"

definition mm512_set1_epi32 :: "64 word \<Rightarrow> 64 word list" where
  "mm512_set1_epi32 val = replicate 8 (word_cat (ucast val :: 32 word) (ucast val :: 32 word))"

definition mm512_cmplt_epi64_mask :: "64 word list \<Rightarrow> 64 word list \<Rightarrow> 8 word" where
  "mm512_cmplt_epi64_mask a b = horner_sum of_bool 2 (map2 (\<lambda>x y. x <s y) a b)"

definition builtin_ctz :: "8 word \<Rightarrow> nat" where
  "builtin_ctz w = length (takeWhile Not (map (bit w) [0..<8]))"

text \<open>
  The block loop, three times in the source with the same body:
  \<^verbatim>\<open>for (size_t i = 0; i < n; i += step) { vec = load(&data[i]); cmp_mask = cmplt(vec, values);\<close>
  \<^verbatim>\<open>if (cmp_mask != 0) { index = __builtin_ctz(cmp_mask); return first + i + index; } }\<close>
  \<^verbatim>\<open>return last;\<close>
  \<open>data\<close> is the position the blocks are read from, \<open>first\<close> the position the result is
  counted from; \<open>values\<close> is written \<open>vals\<close>.
\<close>

function SIMD_loop ::
  "64 word machine \<Rightarrow> int \<Rightarrow> int \<Rightarrow> int \<Rightarrow> nat \<Rightarrow> nat \<Rightarrow> 64 word list \<Rightarrow> 64 word outcome" where
  "SIMD_loop s data first lst n i vals =
     (if i < n then
        (case mm512_loadu_si512 s (data + int i) of
           Inl e \<Rightarrow> (Inl e, s)
         | Inr vec \<Rightarrow>
             if mm512_cmplt_epi64_mask vec vals \<noteq> 0
             then (Inr (first + int i + int (builtin_ctz (mm512_cmplt_epi64_mask vec vals))), s)
             else SIMD_loop s data first lst n (i + 8) vals)
      else (Inr lst, s))"
  by pat_completeness auto
termination
  by (relation "measure (\<lambda>(s, data, first, lst, n, i, vals). n - i)") auto

declare SIMD_loop.simps [simp del]

text \<open>
  \<open>size_t n = std::distance(a, b)\<close> converts the signed distance to an unsigned 64-bit
  number.
\<close>

definition distance :: "int \<Rightarrow> int \<Rightarrow> 64 word" where
  "distance a b = word_of_int (b - a)"

definition LinearSearch_SIMD ::
  "64 word machine \<Rightarrow> int \<Rightarrow> int \<Rightarrow> int \<Rightarrow> 64 word \<Rightarrow> 64 word outcome" where
  "LinearSearch_SIMD s first lst prd val =
     SIMD_loop s first first lst (unat (distance first lst)) 0 (mm512_set1_epi32 val)"

definition ModelBiasedLinearSearch_SIMD ::
  "64 word machine \<Rightarrow> int \<Rightarrow> int \<Rightarrow> int \<Rightarrow> 64 word \<Rightarrow> 64 word outcome" where
  "ModelBiasedLinearSearch_SIMD s first lst prd val =
     (case deref s prd of
        Inl e \<Rightarrow> (Inl e, s)
      | Inr x \<Rightarrow>
          if x < val
          then SIMD_loop s prd first lst (unat (distance prd lst)) 0 (mm512_set1_epi32 val)
          else SIMD_loop s first first lst (unat (distance first prd)) 0 (mm512_set1_epi32 val))"

subsection \<open>\<open>bsr\<close>, \<open>BinarySearch_Branchless\<close> and \<open>ModelBiasedBinarySearch_Branchless\<close>\<close>

text \<open>
  \<^verbatim>\<open>intptr_t ret = -1; while (x) { x >>= 1; ++ret; } return ret;\<close>
  The argument is a \<open>size_t\<close>; the result stays between \<open>-1\<close> and \<open>63\<close>.
\<close>

function bsr_loop :: "64 word \<Rightarrow> int \<Rightarrow> int" where
  "bsr_loop x ret = (if x \<noteq> 0 then bsr_loop (drop_bit 1 x) (ret + 1) else ret)"
  by pat_completeness auto
termination
proof (relation "measure (\<lambda>(x, ret). unat x)")
  show "wf (measure (\<lambda>(x :: 64 word, ret :: int). unat x))"
    by simp
next
  fix x :: "64 word" and ret :: int
  assume "x \<noteq> 0"
  then have "0 < unat x"
    by (simp add: unat_gt_0)
  then have "unat x div 2 < unat x"
    by simp
  then show "((drop_bit 1 x, ret + 1), (x, ret)) \<in> measure (\<lambda>(x, ret). unat x)"
    by (simp add: unat_drop_bit_eq drop_bit_eq_div unat_div)
qed

declare bsr_loop.simps [simp del]

definition bsr :: "64 word \<Rightarrow> int" where
  "bsr x = bsr_loop x (- 1)"

text \<open>
  The step-halving loop, three times in the source with the same body:
  \<^verbatim>\<open>while (step > 0) { pos = (*(first + step) < value ? pos + step : pos); step >>= 1; }\<close>
  \<open>pos\<close> and \<open>step\<close> are \<open>intptr_t\<close>; \<open>step\<close> is positive inside the loop, where \<open>step >> 1\<close>
  halves it, and \<open>pos + step\<close> stays below twice the first step.
\<close>

function Branchless_loop ::
  "'a::linorder machine \<Rightarrow> int \<Rightarrow> int \<Rightarrow> int \<Rightarrow> 'a \<Rightarrow> 'a outcome" where
  "Branchless_loop s first step pos val =
     (if step > 0 then
        (case deref s (first + step) of
           Inl e \<Rightarrow> (Inl e, s)
         | Inr x \<Rightarrow> Branchless_loop s first (step div 2) (if x < val then pos + step else pos) val)
      else (Inr pos, s))"
  by pat_completeness auto
termination
  by (relation "measure (\<lambda>(s, first, step, pos, val). nat step)") auto

declare Branchless_loop.simps [simp del]

text \<open>
  \<^verbatim>\<open>size_t n = std::distance(a, b); intptr_t pos = MINUS_ONE; intptr_t logstep = bsr(n);\<close>
  \<^verbatim>\<open>intptr_t step = intptr_t(1) << logstep; while ...; return first + (pos + 1);\<close>
  The shift is that of a signed 64-bit integer; by a negative count (\<open>n = 0\<close>) it is
  undefined. The probes and the result are counted from \<open>first\<close> in all three copies.
\<close>

definition initial_step :: "64 word \<Rightarrow> int" where
  "initial_step n = sint (push_bit (nat (bsr n)) (1 :: 64 word))"

definition Branchless_descent ::
  "'a::linorder machine \<Rightarrow> int \<Rightarrow> 64 word \<Rightarrow> 'a \<Rightarrow> 'a outcome" where
  "Branchless_descent s first n val =
     (if bsr n < 0 then (Inl (UndefinedShift (bsr n)), s)
      else
        (case Branchless_loop s first (initial_step n) (MINUS_ONE s) val of
           (Inl e, s') \<Rightarrow> (Inl e, s')
         | (Inr pos, s') \<Rightarrow> (Inr (first + (pos + 1)), s')))"

definition BinarySearch_Branchless ::
  "'a::linorder machine \<Rightarrow> int \<Rightarrow> int \<Rightarrow> int \<Rightarrow> 'a \<Rightarrow> 'a outcome" where
  "BinarySearch_Branchless s first lst prd val = Branchless_descent s first (distance first lst) val"

definition ModelBiasedBinarySearch_Branchless ::
  "'a::linorder machine \<Rightarrow> int \<Rightarrow> int \<Rightarrow> int \<Rightarrow> 'a \<Rightarrow> 'a outcome" where
  "ModelBiasedBinarySearch_Branchless s first lst prd val =
     (case deref s prd of
        Inl e \<Rightarrow> (Inl e, s)
      | Inr x \<Rightarrow>
          if x < val then Branchless_descent s first (distance prd lst) val
          else Branchless_descent s first (distance first prd) val)"

section \<open>What the specification says of the strategies\<close>

subsection \<open>Ranges and the reference scan\<close>

text \<open>
  A range is well formed when it lies inside the array; it is sorted when its elements
  ascend. \<open>elements\<close> lists the elements of the range in order.
\<close>

definition valid_range :: "'a machine \<Rightarrow> int \<Rightarrow> int \<Rightarrow> bool" where
  "valid_range s first lst \<longleftrightarrow> 0 \<le> first \<and> first \<le> lst \<and> lst \<le> int (length (mem s))"

definition elements :: "'a machine \<Rightarrow> int \<Rightarrow> int \<Rightarrow> 'a list" where
  "elements s first lst = take (nat (lst - first)) (drop (nat first) (mem s))"

definition sorted_range :: "'a::linorder machine \<Rightarrow> int \<Rightarrow> int \<Rightarrow> bool" where
  "sorted_range s first lst \<longleftrightarrow> valid_range s first lst \<and> sorted (elements s first lst)"

text \<open>
  The reference of the specification, in its words: an exhaustive linear scan that returns
  the first position of the range whose element is not less than the value, or the end of
  the range if there is none. \<open>linear_scan\<close> counts the elements the scan passes.
\<close>

fun linear_scan :: "'a::linorder list \<Rightarrow> 'a \<Rightarrow> nat" where
  "linear_scan [] val = 0"
| "linear_scan (x # xs) val = (if x \<ge> val then 0 else Suc (linear_scan xs val))"

definition reference_scan :: "'a::linorder machine \<Rightarrow> int \<Rightarrow> int \<Rightarrow> 'a \<Rightarrow> int" where
  "reference_scan s first lst val = first + int (linear_scan (elements s first lst) val)"

text \<open>
  The result the specification gives for a leftward scan: one past the last position of
  the range whose element is less than the value, or the start of the range if no element
  is less. Read from the right end, the elements that are not less are dropped; what is
  left ends with the last element that is less.
\<close>

definition past_last_less :: "'a::linorder machine \<Rightarrow> int \<Rightarrow> int \<Rightarrow> 'a \<Rightarrow> int" where
  "past_last_less s first lst val =
     first + int (length (dropWhile (\<lambda>x. val \<le> x) (rev (elements s first lst))))"

subsection \<open>Calls without effect\<close>

text \<open>
  A call is without effect on a state when it returns, leaves every element of the array
  and \<open>MINUS_ONE\<close> as they were, and returns the same result when it is made again with
  the same arguments in the state it left.
\<close>

definition call_is_pure :: "('a machine \<Rightarrow> 'a outcome) \<Rightarrow> 'a machine \<Rightarrow> bool" where
  "call_is_pure f s \<longleftrightarrow>
     (case f s of (r, s') \<Rightarrow> mem s' = mem s \<and> MINUS_ONE s' = MINUS_ONE s \<and> fst (f s') = r)"

definition partial_call_is_pure :: "('a machine \<Rightarrow> 'a outcome option) \<Rightarrow> 'a machine \<Rightarrow> bool" where
  "partial_call_is_pure f s \<longleftrightarrow>
     (case f s of
        None \<Rightarrow> False
      | Some (r, s') \<Rightarrow>
          mem s' = mem s \<and> MINUS_ONE s' = MINUS_ONE s \<and> map_option fst (f s') = Some r)"

subsection \<open>The sequence of the specification's scenarios\<close>

text \<open>
  The sequence \<open>[1, 3, 3, 5, 8, 13, 21]\<close> as a whole array of 64-bit keys, and as the first
  seven positions of an array that holds one more key behind them.
\<close>

definition scenario :: "64 word machine" where
  "scenario = \<lparr>mem = [1, 3, 3, 5, 8, 13, 21], MINUS_ONE = - 1\<rparr>"

definition scenario_in_array :: "64 word machine" where
  "scenario_in_array = \<lparr>mem = [1, 3, 3, 5, 8, 13, 21, 34], MINUS_ONE = - 1\<rparr>"

section \<open>Lemmas\<close>

subsection \<open>Ranges\<close>

lemma length_elements: "valid_range s first lst \<Longrightarrow> length (elements s first lst) = nat (lst - first)"
  by (auto simp: valid_range_def elements_def)

lemma elements_empty [simp]: "elements s first first = []"
  by (simp add: elements_def)

lemma elements_Cons:
  assumes "valid_range s first lst" "first < lst"
  shows "elements s first lst = mem s ! nat first # elements s (first + 1) lst"
proof -
  have n: "nat first < length (mem s)"
    using assms by (auto simp: valid_range_def)
  have "nat (lst - first) = Suc (nat (lst - (first + 1)))"
    using assms by linarith
  moreover have "nat (first + 1) = Suc (nat first)"
    using assms by (auto simp: valid_range_def)
  ultimately show ?thesis
    using n by (simp add: elements_def Cons_nth_drop_Suc [symmetric])
qed

lemma nth_elements:
  "valid_range s first lst \<Longrightarrow> first \<le> i \<Longrightarrow> i < lst \<Longrightarrow>
     elements s first lst ! nat (i - first) = mem s ! nat i"
proof -
  assume a: "valid_range s first lst" "first \<le> i" "i < lst"
  then have "nat first + nat (i - first) = nat i" "nat (i - first) < nat (lst - first)"
    "nat first + nat (i - first) \<le> length (mem s)"
    by (auto simp: valid_range_def)
  then show ?thesis
    by (simp add: elements_def)
qed

lemma valid_range_step: "valid_range s first lst \<Longrightarrow> first < lst \<Longrightarrow> valid_range s (first + 1) lst"
  by (auto simp: valid_range_def)

lemma sorted_range_valid: "sorted_range s first lst \<Longrightarrow> valid_range s first lst"
  by (simp add: sorted_range_def)

lemma sorted_range_nth:
  assumes "sorted_range s first lst" "first \<le> i" "i \<le> j" "j < lst"
  shows "mem s ! nat i \<le> mem s ! nat j"
proof -
  have v: "valid_range s first lst" and srt: "sorted (elements s first lst)"
    using assms(1) by (auto simp: sorted_range_def)
  have "elements s first lst ! nat (i - first) \<le> elements s first lst ! nat (j - first)"
    using assms by (intro sorted_nth_mono [OF srt]) (auto simp: length_elements [OF v])
  then show ?thesis
    using assms nth_elements [OF v, of i] nth_elements [OF v, of j] by auto
qed

lemma sorted_range_sub:
  assumes "sorted_range s first lst" "first \<le> a" "a \<le> b" "b \<le> lst"
  shows "sorted_range s a b"
proof -
  have v: "valid_range s first lst" and srt: "sorted (elements s first lst)"
    using assms(1) by (auto simp: sorted_range_def)
  have w: "valid_range s a b"
    using v assms by (auto simp: valid_range_def)
  have "sorted (elements s a b)"
    unfolding sorted_iff_nth_mono
  proof (intro allI impI)
    fix i j assume ij: "i \<le> j" "j < length (elements s a b)"
    then have j: "a + int j < b" unfolding length_elements [OF w] by linarith
    have "mem s ! nat (a + int i) \<le> mem s ! nat (a + int j)"
      using ij j assms by (intro sorted_range_nth [OF assms(1)]) auto
    moreover have "elements s a b ! nat (a + int i - a) = mem s ! nat (a + int i)"
      using ij j by (intro nth_elements [OF w]) auto
    moreover have "elements s a b ! nat (a + int j - a) = mem s ! nat (a + int j)"
      using ij j by (intro nth_elements [OF w]) auto
    ultimately show "elements s a b ! i \<le> elements s a b ! j" by simp
  qed
  with w show ?thesis by (simp add: sorted_range_def)
qed

subsection \<open>The reference scan\<close>

text \<open>
  The position of the reference scan is the only position of the range with every element
  before it less than the value and the element at it, if there is one, not less. So the
  scan over a window of the range gives the position for the whole range when every
  element before the window is less and the element behind the window, if there is one,
  is not.
\<close>

lemma linear_scan_le: "linear_scan xs val \<le> length xs"
  by (induction xs) auto

lemma linear_scan_less: "i < linear_scan xs val \<Longrightarrow> xs ! i < val"
proof (induction xs arbitrary: i)
  case Nil
  then show ?case by simp
next
  case (Cons x xs)
  then show ?case by (cases i) (auto split: if_splits)
qed

lemma linear_scan_stop: "linear_scan xs val < length xs \<Longrightarrow> val \<le> xs ! linear_scan xs val"
  by (induction xs) auto

lemma linear_scan_unique:
  "k \<le> length xs \<Longrightarrow> (\<forall>i<k. xs ! i < val) \<Longrightarrow> (k < length xs \<longrightarrow> val \<le> xs ! k) \<Longrightarrow>
     linear_scan xs val = k"
proof (induction xs arbitrary: k)
  case Nil
  then show ?case by simp
next
  case (Cons x xs)
  show ?case
  proof (cases k)
    case 0
    with Cons.prems show ?thesis by auto
  next
    case (Suc j)
    with Cons.prems have "x < val" by auto
    moreover have "linear_scan xs val = j"
      using Cons.prems Suc by (intro Cons.IH) auto
    ultimately show ?thesis using Suc by auto
  qed
qed

lemma reference_scan_empty [simp]: "reference_scan s first first val = first"
  by (simp add: reference_scan_def)

lemma reference_scan_step:
  assumes "valid_range s first lst" "first < lst"
  shows "reference_scan s first lst val =
     (if mem s ! nat first \<ge> val then first else reference_scan s (first + 1) lst val)"
  using elements_Cons [OF assms] by (simp add: reference_scan_def)

lemma reference_scan_bounds:
  "valid_range s first lst \<Longrightarrow>
     first \<le> reference_scan s first lst val \<and> reference_scan s first lst val \<le> lst"
proof -
  assume v: "valid_range s first lst"
  then have "first \<le> lst" by (simp add: valid_range_def)
  moreover have "linear_scan (elements s first lst) val \<le> nat (lst - first)"
    using linear_scan_le [of "elements s first lst" val] by (simp add: length_elements [OF v])
  ultimately show ?thesis
    unfolding reference_scan_def by linarith
qed

lemma reference_scan_less:
  assumes "valid_range s first lst" "first \<le> i" "i < reference_scan s first lst val"
  shows "mem s ! nat i < val"
proof -
  have "nat (i - first) < linear_scan (elements s first lst) val"
    using assms(2,3) unfolding reference_scan_def by linarith
  then have "elements s first lst ! nat (i - first) < val"
    by (rule linear_scan_less)
  moreover have "i < lst"
    using assms reference_scan_bounds [OF assms(1), of val] by linarith
  ultimately show ?thesis
    using nth_elements [OF assms(1,2)] by simp
qed

lemma reference_scan_stop:
  assumes "valid_range s first lst" "reference_scan s first lst val < lst"
  shows "val \<le> mem s ! nat (reference_scan s first lst val)"
proof -
  let ?k = "linear_scan (elements s first lst) val"
  have "?k < length (elements s first lst)"
    using assms(2) unfolding reference_scan_def length_elements [OF assms(1)] by linarith
  then have "val \<le> elements s first lst ! ?k"
    by (rule linear_scan_stop)
  moreover have "elements s first lst ! nat (reference_scan s first lst val - first) =
      mem s ! nat (reference_scan s first lst val)"
    using assms reference_scan_bounds [OF assms(1), of val] by (intro nth_elements) auto
  ultimately show ?thesis
    by (simp add: reference_scan_def)
qed

lemma reference_scan_unique:
  assumes v: "valid_range s first lst" and r: "first \<le> r" "r \<le> lst"
    and less: "\<And>i. first \<le> i \<Longrightarrow> i < r \<Longrightarrow> mem s ! nat i < val"
    and stop: "r < lst \<Longrightarrow> val \<le> mem s ! nat r"
  shows "reference_scan s first lst val = r"
proof -
  have "linear_scan (elements s first lst) val = nat (r - first)"
  proof (rule linear_scan_unique)
    show "nat (r - first) \<le> length (elements s first lst)"
      using r by (simp add: length_elements [OF v])
    show "\<forall>i<nat (r - first). elements s first lst ! i < val"
    proof (intro allI impI)
      fix i assume "i < nat (r - first)"
      then have "first \<le> first + int i" "first + int i < r" by linarith+
      moreover from this have "elements s first lst ! nat (first + int i - first) = mem s ! nat (first + int i)"
        using r by (intro nth_elements [OF v]) auto
      ultimately show "elements s first lst ! i < val"
        using less [of "first + int i"] by simp
    qed
    show "nat (r - first) < length (elements s first lst) \<longrightarrow> val \<le> elements s first lst ! nat (r - first)"
      using r stop nth_elements [OF v r(1)] by (auto simp: length_elements [OF v])
  qed
  then show ?thesis
    using r by (simp add: reference_scan_def)
qed

lemma reference_scan_window:
  assumes v: "valid_range s first lst" and ab: "first \<le> a" "a \<le> b" "b \<le> lst"
    and less: "\<And>i. first \<le> i \<Longrightarrow> i < a \<Longrightarrow> mem s ! nat i < val"
    and stop: "b < lst \<Longrightarrow> val \<le> mem s ! nat b"
  shows "reference_scan s first lst val = reference_scan s a b val"
proof -
  have w: "valid_range s a b"
    using v ab by (auto simp: valid_range_def)
  let ?r = "reference_scan s a b val"
  note b = reference_scan_bounds [OF w, of val]
  show ?thesis
  proof (rule reference_scan_unique [OF v])
    show "first \<le> ?r" "?r \<le> lst" using b ab by auto
    show "mem s ! nat i < val" if "first \<le> i" "i < ?r" for i
      using that less [of i] reference_scan_less [OF w, of i val] by (cases "i < a") auto
    show "val \<le> mem s ! nat ?r" if "?r < lst"
      using that stop reference_scan_stop [OF w, of val] b by (cases "?r < b") auto
  qed
qed

lemma reference_scan_from_pred:
  assumes srt: "sorted_range s first lst" and p: "first \<le> prd" "prd < lst"
    and less: "mem s ! nat prd < val"
  shows "reference_scan s first lst val = reference_scan s prd lst val \<and> prd < reference_scan s prd lst val"
proof -
  note v = sorted_range_valid [OF srt]
  have w: "valid_range s prd lst"
    using v p by (auto simp: valid_range_def)
  have "reference_scan s first lst val = reference_scan s prd lst val"
  proof (rule reference_scan_window [OF v])
    show "first \<le> prd" "prd \<le> lst" "lst \<le> lst" using p by auto
    show "mem s ! nat i < val" if "first \<le> i" "i < prd" for i
      using sorted_range_nth [OF srt that(1), of prd] that p less by auto
    show "val \<le> mem s ! nat lst" if "lst < lst" using that by simp
  qed
  moreover have "reference_scan s prd lst val \<noteq> prd"
    using reference_scan_stop [OF w, of val] p less by auto
  ultimately show ?thesis
    using reference_scan_bounds [OF w, of val] by auto
qed

lemma reference_scan_to_pred:
  assumes srt: "sorted_range s first lst" and p: "first \<le> prd" "prd < lst"
    and ge: "val \<le> mem s ! nat prd"
  shows "reference_scan s first lst val = reference_scan s first prd val"
  using p ge
  by (intro reference_scan_window [OF sorted_range_valid [OF srt]]) auto

lemma dropWhile_rev_length:
  assumes "k \<le> length xs" "0 < k \<longrightarrow> \<not> P (xs ! (k - 1))" "\<forall>i. k \<le> i \<and> i < length xs \<longrightarrow> P (xs ! i)"
  shows "length (dropWhile P (rev xs)) = k"
proof -
  have split: "rev xs = rev (drop k xs) @ rev (take k xs)"
    by (metis append_take_drop_id rev_append)
  have "P x" if "x \<in> set (rev (drop k xs))" for x
  proof -
    from that obtain i where "i < length (drop k xs)" "drop k xs ! i = x"
      by (auto simp: in_set_conv_nth)
    then show ?thesis using assms(3) by (auto simp: nth_drop)
  qed
  then have "dropWhile P (rev (drop k xs) @ rev (take k xs)) = dropWhile P (rev (take k xs))"
    by (rule dropWhile_append2)
  then have eq: "dropWhile P (rev xs) = dropWhile P (rev (take k xs))"
    using split by simp
  show ?thesis
  proof (cases k)
    case 0
    then show ?thesis using eq by simp
  next
    case (Suc j)
    then have "take k xs = take j xs @ [xs ! j]"
      using assms(1) by (simp add: take_Suc_conv_app_nth)
    then show ?thesis
      using eq assms(1,2) Suc by simp
  qed
qed

lemma past_last_less_unique:
  assumes v: "valid_range s first lst" and r: "first \<le> r" "r \<le> lst"
    and less: "first < r \<Longrightarrow> mem s ! nat (r - 1) < val"
    and ge: "\<And>i. r \<le> i \<Longrightarrow> i < lst \<Longrightarrow> val \<le> mem s ! nat i"
  shows "past_last_less s first lst val = r"
proof -
  let ?xs = "elements s first lst"
  have "length (dropWhile (\<lambda>x. val \<le> x) (rev ?xs)) = nat (r - first)"
  proof (rule dropWhile_rev_length)
    show "nat (r - first) \<le> length ?xs"
      using r by (simp add: length_elements [OF v])
    show "0 < nat (r - first) \<longrightarrow> \<not> val \<le> ?xs ! (nat (r - first) - 1)"
    proof
      assume "0 < nat (r - first)"
      then have f: "first < r" by simp
      then have "?xs ! nat (r - 1 - first) = mem s ! nat (r - 1)"
        using r by (intro nth_elements [OF v]) auto
      moreover have "nat (r - first) - 1 = nat (r - 1 - first)"
        using f by simp
      ultimately show "\<not> val \<le> ?xs ! (nat (r - first) - 1)"
        using less [OF f] by simp
    qed
    show "\<forall>i. nat (r - first) \<le> i \<and> i < length ?xs \<longrightarrow> val \<le> ?xs ! i"
    proof (intro allI impI)
      fix i assume "nat (r - first) \<le> i \<and> i < length ?xs"
      then have i: "r \<le> first + int i" "first + int i < lst"
        unfolding length_elements [OF v] using r by linarith+
      then have "?xs ! nat (first + int i - first) = mem s ! nat (first + int i)"
        using r by (intro nth_elements [OF v]) auto
      then show "val \<le> ?xs ! i"
        using ge [OF i] by simp
    qed
  qed
  then show ?thesis
    using r by (simp add: past_last_less_def)
qed

lemma past_last_less_eq_reference_scan:
  assumes srt: "sorted_range s first lst"
  shows "past_last_less s first lst val = reference_scan s first lst val"
proof -
  note v = sorted_range_valid [OF srt]
  let ?r = "reference_scan s first lst val"
  note b = reference_scan_bounds [OF v, of val]
  show ?thesis
  proof (rule past_last_less_unique [OF v])
    show "first \<le> ?r" "?r \<le> lst" using b by auto
    show "mem s ! nat (?r - 1) < val" if "first < ?r"
      using that by (intro reference_scan_less [OF v]) auto
    show "val \<le> mem s ! nat i" if "?r \<le> i" "i < lst" for i
    proof -
      have "val \<le> mem s ! nat ?r"
        using that by (intro reference_scan_stop [OF v]) auto
      also have "\<dots> \<le> mem s ! nat i"
        using that b by (intro sorted_range_nth [OF srt]) auto
      finally show ?thesis .
    qed
  qed
qed

subsection \<open>The linear scans\<close>

lemma LinearSearch_loop_scan:
  "valid_range s runner lst \<Longrightarrow>
     LinearSearch_loop s runner lst val = (Inr (reference_scan s runner lst val), s)"
proof (induction s runner lst val rule: LinearSearch_loop.induct)
  case (1 s runner lst val)
  show ?case
  proof (cases "runner = lst")
    case True
    then show ?thesis by (subst LinearSearch_loop.simps) simp
  next
    case False
    with "1.prems" have lt: "runner < lst" and d: "deref s runner = Inr (mem s ! nat runner)"
      by (auto simp: valid_range_def deref_def)
    show ?thesis
    proof (cases "val \<le> mem s ! nat runner")
      case True
      then show ?thesis
        using False d reference_scan_step [OF "1.prems" lt, of val]
        by (subst LinearSearch_loop.simps) simp
    next
      case g: False
      have "LinearSearch_loop s (runner + 1) lst val = (Inr (reference_scan s (runner + 1) lst val), s)"
        using "1.IH" [OF False d g] valid_range_step [OF "1.prems" lt] by simp
      then show ?thesis
        using False d g reference_scan_step [OF "1.prems" lt, of val]
        by (subst LinearSearch_loop.simps) simp
    qed
  qed
qed

lemma ModelBiasedLinearSearch_right_scan:
  "valid_range s runner lst \<Longrightarrow>
     ModelBiasedLinearSearch_right s runner lst val = (Inr (reference_scan s runner lst val), s)"
proof (induction s runner lst val rule: ModelBiasedLinearSearch_right.induct)
  case (1 s runner lst val)
  show ?case
  proof (cases "runner < lst")
    case False
    with "1.prems" have "runner = lst" by (simp add: valid_range_def)
    then show ?thesis by (subst ModelBiasedLinearSearch_right.simps) simp
  next
    case lt: True
    with "1.prems" have d: "deref s runner = Inr (mem s ! nat runner)"
      by (auto simp: valid_range_def deref_def)
    show ?thesis
    proof (cases "val \<le> mem s ! nat runner")
      case True
      then show ?thesis
        using lt d reference_scan_step [OF "1.prems" lt, of val]
        by (subst ModelBiasedLinearSearch_right.simps) simp
    next
      case g: False
      have "ModelBiasedLinearSearch_right s (runner + 1) lst val =
          (Inr (reference_scan s (runner + 1) lst val), s)"
        using "1.IH" [OF lt d g] valid_range_step [OF "1.prems" lt] by simp
      then show ?thesis
        using lt d g reference_scan_step [OF "1.prems" lt, of val]
        by (subst ModelBiasedLinearSearch_right.simps) simp
    qed
  qed
qed

lemma ModelBiasedLinearSearch_left_result:
  "0 \<le> first \<Longrightarrow> first \<le> runner + 1 \<Longrightarrow> runner < int (length (mem s)) \<Longrightarrow>
     \<exists>r. ModelBiasedLinearSearch_left s runner first val = (Inr r, s) \<and> first \<le> r \<and> r \<le> runner + 1 \<and>
       (first < r \<longrightarrow> mem s ! nat (r - 1) < val) \<and>
       (\<forall>i. r \<le> i \<and> i \<le> runner \<longrightarrow> val \<le> mem s ! nat i)"
proof (induction s runner first val rule: ModelBiasedLinearSearch_left.induct)
  case (1 s runner first val)
  show ?case
  proof (cases "first \<le> runner")
    case False
    with "1.prems" have "runner = first - 1" by simp
    then show ?thesis by (subst ModelBiasedLinearSearch_left.simps) auto
  next
    case ge: True
    with "1.prems" have d: "deref s runner = Inr (mem s ! nat runner)"
      by (auto simp: deref_def)
    show ?thesis
    proof (cases "mem s ! nat runner < val")
      case True
      then show ?thesis
        using ge d by (subst ModelBiasedLinearSearch_left.simps) auto
    next
      case g: False
      obtain r where r: "ModelBiasedLinearSearch_left s (runner - 1) first val = (Inr r, s)"
          "first \<le> r" "r \<le> runner" "first < r \<longrightarrow> mem s ! nat (r - 1) < val"
          "\<forall>i. r \<le> i \<and> i \<le> runner - 1 \<longrightarrow> val \<le> mem s ! nat i"
        using "1.IH" [OF ge d g] "1.prems" ge by auto
      have "val \<le> mem s ! nat i" if "r \<le> i" "i \<le> runner" for i
        using that r(5) g by (cases "i = runner") auto
      then show ?thesis
        using ge d g r by (subst ModelBiasedLinearSearch_left.simps) auto
    qed
  qed
qed

lemma ModelBiasedLinearSearch_left_past_last_less:
  assumes srt: "sorted_range s first lst" and p: "first \<le> prd" "prd < lst"
    and ge: "val \<le> mem s ! nat prd"
  shows "ModelBiasedLinearSearch_left s prd first val = (Inr (past_last_less s first lst val), s) \<and>
     past_last_less s first lst val \<le> prd \<and>
     past_last_less s first lst val = past_last_less s first (prd + 1) val"
proof -
  note v = sorted_range_valid [OF srt]
  have w: "valid_range s first (prd + 1)"
    using v p by (auto simp: valid_range_def)
  obtain r where r: "ModelBiasedLinearSearch_left s prd first val = (Inr r, s)"
      "first \<le> r" "r \<le> prd + 1" "first < r \<longrightarrow> mem s ! nat (r - 1) < val"
      "\<forall>i. r \<le> i \<and> i \<le> prd \<longrightarrow> val \<le> mem s ! nat i"
    using ModelBiasedLinearSearch_left_result [of first prd s val] v p
    by (auto simp: valid_range_def)
  have "r \<noteq> prd + 1"
    using r(2,4) ge p by auto
  with r(3) have rp: "r \<le> prd" by simp
  have all: "val \<le> mem s ! nat i" if "r \<le> i" "i < lst" for i
  proof (cases "i \<le> prd")
    case True
    with r(5) that show ?thesis by simp
  next
    case False
    then have "mem s ! nat prd \<le> mem s ! nat i"
      using that p by (intro sorted_range_nth [OF srt]) auto
    with ge show ?thesis by simp
  qed
  have "past_last_less s first lst val = r"
    using r rp p all by (intro past_last_less_unique [OF v]) auto
  moreover have "past_last_less s first (prd + 1) val = r"
    using r rp p all by (intro past_last_less_unique [OF w]) auto
  ultimately show ?thesis
    using r(1) rp by simp
qed

subsection \<open>\<open>std::lower_bound\<close>\<close>

lemma lower_bound_loop_scan:
  "sorted_range s first (first + len) \<Longrightarrow> 0 \<le> len \<Longrightarrow>
     lower_bound_loop s first len val = (Inr (reference_scan s first (first + len) val), s)"
proof (induction s first len val rule: lower_bound_loop.induct)
  case (1 s first len val)
  note srt = "1.prems"(1)
  note v = sorted_range_valid [OF srt]
  show ?case
  proof (cases "0 < len")
    case False
    with "1.prems" have "len = 0" by simp
    then show ?thesis by (subst lower_bound_loop.simps) simp
  next
    case True
    define m where "m = first + len div 2"
    have m: "first \<le> m" "m < first + len" "0 \<le> m" "m < int (length (mem s))"
      using True v by (auto simp: m_def valid_range_def)
    then have d: "deref s (first + len div 2) = Inr (mem s ! nat m)"
      by (simp add: deref_def m_def)
    show ?thesis
    proof (cases "mem s ! nat m < val")
      case less: True
      have sub: "sorted_range s (m + 1) (m + 1 + (len - len div 2 - 1))"
        using m by (intro sorted_range_sub [OF srt]) (auto simp: m_def)
      have "lower_bound_loop s (first + len div 2 + 1) (len - len div 2 - 1) val =
          (Inr (reference_scan s (first + len div 2 + 1)
             (first + len div 2 + 1 + (len - len div 2 - 1)) val), s)"
        using sub m True by (intro "1.IH"(1) [OF True d less]) (auto simp: m_def)
      moreover have "first + len div 2 + 1 + (len - len div 2 - 1) = first + len"
        by simp
      moreover have "reference_scan s first (first + len) val = reference_scan s (m + 1) (first + len) val"
      proof (rule reference_scan_window [OF v])
        show "first \<le> m + 1" "m + 1 \<le> first + len" "first + len \<le> first + len"
          using m by auto
        show "mem s ! nat i < val" if "first \<le> i" "i < m + 1" for i
          using sorted_range_nth [OF srt that(1), of m] that m less by auto
        show "val \<le> mem s ! nat (first + len)" if "first + len < first + len"
          using that by simp
      qed
      ultimately show ?thesis
        using True d less by (subst lower_bound_loop.simps) (simp add: m_def)
    next
      case ge: False
      have sub: "sorted_range s first (first + len div 2)"
        using m by (intro sorted_range_sub [OF srt]) (auto simp: m_def)
      have "lower_bound_loop s first (len div 2) val =
          (Inr (reference_scan s first (first + len div 2) val), s)"
        using sub True by (intro "1.IH"(2) [OF True d ge]) auto
      moreover have "reference_scan s first (first + len) val = reference_scan s first m val"
      proof (rule reference_scan_window [OF v])
        show "first \<le> first" "first \<le> m" "m \<le> first + len"
          using m by auto
        show "mem s ! nat i < val" if "first \<le> i" "i < first" for i
          using that by simp
        show "val \<le> mem s ! nat m" if "m < first + len"
          using ge by simp
      qed
      ultimately show ?thesis
        using True d ge by (subst lower_bound_loop.simps) (simp add: m_def)
    qed
  qed
qed

lemma lower_bound_scan:
  assumes "sorted_range s first lst"
  shows "lower_bound s first lst val = (Inr (reference_scan s first lst val), s)"
proof -
  have "first \<le> lst"
    using assms by (simp add: sorted_range_def valid_range_def)
  then show ?thesis
    using lower_bound_loop_scan [of s first "lst - first" val] assms
    by (simp add: lower_bound_def)
qed

subsection \<open>The doubling loops\<close>

text \<open>
  Started with a positive bound, both loops return: the distance between the probe and
  the end it moves to shrinks with every round.
\<close>

lemma ExponentialSearch_loop_returns:
  "0 < bound \<Longrightarrow> \<exists>r. ExponentialSearch_loop s bound prev cur lst val = Some (r, s)"
proof (induction "nat (lst - cur)" arbitrary: bound prev cur rule: less_induct)
  case less
  show ?case
  proof (cases "cur < lst \<and> (\<exists>x. deref s cur = Inr x \<and> x < val)")
    case False
    then show ?thesis
      by (subst ExponentialSearch_loop.simps) (auto split: sum.splits)
  next
    case True
    then have "nat (lst - (cur + int (bound * 2))) < nat (lst - cur)"
      using less.prems by simp
    from less.hyps [OF this, of "bound * 2" cur] less.prems True show ?thesis
      by (subst ExponentialSearch_loop.simps) auto
  qed
qed

lemma ModelBiasedExponentialSearch_left_returns:
  "0 < bound \<Longrightarrow> \<exists>r. ModelBiasedExponentialSearch_left s bound prev cur first val = Some (r, s)"
proof (induction "nat (cur - first)" arbitrary: bound prev cur rule: less_induct)
  case less
  show ?case
  proof (cases "first < cur \<and> (\<exists>x. deref s cur = Inr x \<and> val \<le> x)")
    case False
    then show ?thesis
      by (subst ModelBiasedExponentialSearch_left.simps) (auto split: sum.splits)
  next
    case True
    then have "nat (cur - int (bound * 2) - first) < nat (cur - first)"
      using less.prems by simp
    from less.hyps [OF this, of "bound * 2" cur] less.prems True show ?thesis
      by (subst ModelBiasedExponentialSearch_left.simps) auto
  qed
qed

lemma ExponentialSearch_loop_result:
  assumes "0 \<le> b" "lst \<le> int (length (mem s))"
  shows "\<exists>j\<ge>k. ExponentialSearch_loop s (2 ^ k) (b + 2 ^ k - 1) (b + 2 ^ Suc k - 1) lst val =
        Some (Inr (b + 2 ^ j - 1, b + 2 ^ Suc j - 1), s) \<and>
      (\<forall>i. k < i \<and> i \<le> j \<longrightarrow> b + 2 ^ i - 1 < lst \<and> mem s ! nat (b + 2 ^ i - 1) < val) \<and>
      (lst \<le> b + 2 ^ Suc j - 1 \<or> val \<le> mem s ! nat (b + 2 ^ Suc j - 1))"
proof (induction "nat (lst - (b + 2 ^ Suc k - 1))" arbitrary: k rule: less_induct)
  case less
  let ?cur = "b + 2 ^ Suc k - 1"
  show ?case
  proof (cases "?cur < lst")
    case False
    then have "ExponentialSearch_loop s (2 ^ k) (b + 2 ^ k - 1) ?cur lst val =
        Some (Inr (b + 2 ^ k - 1, ?cur), s)"
      by (subst ExponentialSearch_loop.simps) simp
    with False show ?thesis
      by (intro exI [of _ k]) auto
  next
    case lt: True
    have "(0::int) < 2 ^ Suc k" by simp
    then have c0: "0 \<le> ?cur" using assms(1) by linarith
    then have d: "deref s ?cur = Inr (mem s ! nat ?cur)"
      using lt assms(2) by (simp add: deref_def)
    show ?thesis
    proof (cases "mem s ! nat ?cur < val")
      case False
      then have "ExponentialSearch_loop s (2 ^ k) (b + 2 ^ k - 1) ?cur lst val =
          Some (Inr (b + 2 ^ k - 1, ?cur), s)"
        using lt d by (subst ExponentialSearch_loop.simps) simp
      with False show ?thesis
        by (intro exI [of _ k]) auto
    next
      case True
      have bound: "(2::nat) ^ k * 2 = 2 ^ Suc k"
        by simp
      have next_cur: "?cur + int (2 ^ Suc k) = b + 2 ^ Suc (Suc k) - 1"
        by simp
      have "ExponentialSearch_loop s (2 ^ k) (b + 2 ^ k - 1) ?cur lst val =
          ExponentialSearch_loop s (2 ^ k * 2) ?cur (?cur + int (2 ^ k * 2)) lst val"
        using lt d True by (subst ExponentialSearch_loop.simps) simp
      then have step: "ExponentialSearch_loop s (2 ^ k) (b + 2 ^ k - 1) ?cur lst val =
          ExponentialSearch_loop s (2 ^ Suc k) ?cur (b + 2 ^ Suc (Suc k) - 1) lst val"
        by (simp only: bound next_cur)
      have "nat (lst - (b + 2 ^ Suc (Suc k) - 1)) < nat (lst - ?cur)"
        using lt by simp
      from less [OF this] obtain j where j: "Suc k \<le> j"
          "ExponentialSearch_loop s (2 ^ Suc k) ?cur (b + 2 ^ Suc (Suc k) - 1) lst val =
             Some (Inr (b + 2 ^ j - 1, b + 2 ^ Suc j - 1), s)"
          "\<forall>i. Suc k < i \<and> i \<le> j \<longrightarrow> b + 2 ^ i - 1 < lst \<and> mem s ! nat (b + 2 ^ i - 1) < val"
          "lst \<le> b + 2 ^ Suc j - 1 \<or> val \<le> mem s ! nat (b + 2 ^ Suc j - 1)"
        by blast
      have "b + 2 ^ i - 1 < lst \<and> mem s ! nat (b + 2 ^ i - 1) < val" if "k < i" "i \<le> j" for i
      proof (cases "i = Suc k")
        case True
        then show ?thesis using lt \<open>mem s ! nat ?cur < val\<close> by simp
      next
        case False
        with that j(3) show ?thesis by simp
      qed
      then have "\<forall>i. k < i \<and> i \<le> j \<longrightarrow> b + 2 ^ i - 1 < lst \<and> mem s ! nat (b + 2 ^ i - 1) < val"
        by blast
      moreover have "k \<le> j" using j(1) by simp
      ultimately show ?thesis
        using j(2,4) step by (intro exI [of _ j]) (simp only: simp_thms)
    qed
  qed
qed

lemma ExponentialSearch_loop_generic:
  assumes "0 \<le> prev" "lst \<le> int (length (mem s))"
  shows "0 < bound \<Longrightarrow> prev < cur \<Longrightarrow> prev < lst \<Longrightarrow> mem s ! nat prev < val \<Longrightarrow>
     \<exists>p c. ExponentialSearch_loop s bound prev cur lst val = Some (Inr (p, c), s) \<and>
       prev \<le> p \<and> p < lst \<and> mem s ! nat p < val \<and> p < c \<and> (lst \<le> c \<or> val \<le> mem s ! nat c)"
  using assms(1)
proof (induction "nat (lst - cur)" arbitrary: bound prev cur rule: less_induct)
  case less
  show ?case
  proof (cases "cur < lst")
    case False
    then have "ExponentialSearch_loop s bound prev cur lst val = Some (Inr (prev, cur), s)"
      by (subst ExponentialSearch_loop.simps) simp
    with False less.prems show ?thesis by auto
  next
    case lt: True
    then have d: "deref s cur = Inr (mem s ! nat cur)"
      using less.prems assms(2) by (simp add: deref_def)
    show ?thesis
    proof (cases "mem s ! nat cur < val")
      case False
      then have "ExponentialSearch_loop s bound prev cur lst val = Some (Inr (prev, cur), s)"
        using lt d by (subst ExponentialSearch_loop.simps) simp
      with False less.prems show ?thesis by auto
    next
      case True
      have step: "ExponentialSearch_loop s bound prev cur lst val =
          ExponentialSearch_loop s (bound * 2) cur (cur + int (bound * 2)) lst val"
        using lt d True by (subst ExponentialSearch_loop.simps) simp
      have "nat (lst - (cur + int (bound * 2))) < nat (lst - cur)"
        using lt less.prems(1) by simp
      moreover have "0 < bound * 2" "cur < cur + int (bound * 2)" "0 \<le> cur"
        using less.prems by simp_all
      ultimately obtain p c where
        "ExponentialSearch_loop s (bound * 2) cur (cur + int (bound * 2)) lst val = Some (Inr (p, c), s)"
        "cur \<le> p" "p < lst" "mem s ! nat p < val" "p < c" "lst \<le> c \<or> val \<le> mem s ! nat c"
        using less.hyps [of "cur + int (bound * 2)" "bound * 2" cur] lt True by blast
      then show ?thesis
        using step less.prems(2) by auto
    qed
  qed
qed

lemma ModelBiasedExponentialSearch_left_result:
  assumes "0 \<le> first" "prev < int (length (mem s))"
  shows "0 < bound \<Longrightarrow> first \<le> prev \<Longrightarrow> val \<le> mem s ! nat prev \<Longrightarrow> cur < prev \<Longrightarrow>
     \<exists>p c. ModelBiasedExponentialSearch_left s bound prev cur first val = Some (Inr (p, c), s) \<and>
       first \<le> p \<and> p \<le> prev \<and> val \<le> mem s ! nat p \<and> c < p \<and> (c \<le> first \<or> mem s ! nat c < val)"
  using assms(2)
proof (induction "nat (cur - first)" arbitrary: bound prev cur rule: less_induct)
  case less
  show ?case
  proof (cases "first < cur")
    case False
    then have "ModelBiasedExponentialSearch_left s bound prev cur first val = Some (Inr (prev, cur), s)"
      by (subst ModelBiasedExponentialSearch_left.simps) simp
    with False less.prems show ?thesis by auto
  next
    case gt: True
    then have d: "deref s cur = Inr (mem s ! nat cur)"
      using less.prems assms(1) by (simp add: deref_def)
    show ?thesis
    proof (cases "val \<le> mem s ! nat cur")
      case False
      then have "ModelBiasedExponentialSearch_left s bound prev cur first val = Some (Inr (prev, cur), s)"
        using gt d by (subst ModelBiasedExponentialSearch_left.simps) simp
      with False less.prems show ?thesis by auto
    next
      case True
      have step: "ModelBiasedExponentialSearch_left s bound prev cur first val =
          ModelBiasedExponentialSearch_left s (bound * 2) cur (cur - int (bound * 2)) first val"
        using gt d True by (subst ModelBiasedExponentialSearch_left.simps) simp
      have "nat (cur - int (bound * 2) - first) < nat (cur - first)"
        using gt less.prems(1) by simp
      moreover have "0 < bound * 2" "first \<le> cur" "cur - int (bound * 2) < cur"
          "cur < int (length (mem s))"
        using less.prems gt by simp_all
      ultimately obtain p c where
        "ModelBiasedExponentialSearch_left s (bound * 2) cur (cur - int (bound * 2)) first val =
           Some (Inr (p, c), s)"
        "first \<le> p" "p \<le> cur" "val \<le> mem s ! nat p" "c < p" "c \<le> first \<or> mem s ! nat c < val"
        using less.hyps [of "cur - int (bound * 2)" "bound * 2" cur] True by blast
      then show ?thesis
        using step less.prems(4) by auto
    qed
  qed
qed

subsection \<open>\<open>bsr\<close> and the step-halving loop\<close>

lemma bsr_loop_zero [simp]: "bsr_loop 0 ret = ret"
  by (subst bsr_loop.simps) simp

lemma bsr_loop_nonzero:
  "x \<noteq> 0 \<Longrightarrow> \<exists>k. bsr_loop x ret = ret + 1 + int k \<and> 2 ^ k \<le> unat x \<and> unat x < 2 ^ Suc k"
proof (induction x ret rule: bsr_loop.induct)
  case (1 x ret)
  have half: "unat (drop_bit 1 x) = unat x div 2"
    by (simp add: unat_drop_bit_eq drop_bit_eq_div unat_div)
  have unfold: "bsr_loop x ret = bsr_loop (drop_bit 1 x) (ret + 1)"
    using "1.prems" by (subst bsr_loop.simps) simp
  have pos: "0 < unat x"
    using "1.prems" by (simp add: unat_gt_0)
  show ?case
  proof (cases "drop_bit 1 x = 0")
    case True
    then have "unat x div 2 = 0"
      using half by simp
    with pos have "unat x = 1" by linarith
    moreover have "bsr_loop x ret = ret + 1"
      using unfold True by simp
    ultimately show ?thesis
      by (intro exI [of _ 0]) simp
  next
    case False
    from "1.IH" [OF "1.prems" False] obtain k where
      k: "bsr_loop (drop_bit 1 x) (ret + 1) = ret + 1 + 1 + int k"
        "2 ^ k \<le> unat (drop_bit 1 x)" "unat (drop_bit 1 x) < 2 ^ Suc k"
      by blast
    have "2 ^ Suc k \<le> unat x" "unat x < 2 ^ Suc (Suc k)"
      using k(2,3) unfolding half by simp_all
    then show ?thesis
      using unfold k(1) by (intro exI [of _ "Suc k"]) simp
  qed
qed

lemma bsr_nonzero:
  assumes "x \<noteq> 0"
  shows "0 \<le> bsr x \<and> 2 ^ nat (bsr x) \<le> unat x \<and> unat x < 2 ^ Suc (nat (bsr x))"
proof -
  from bsr_loop_nonzero [OF assms, of "- 1"] obtain k where
    "bsr_loop x (- 1) = - 1 + 1 + int k" "2 ^ k \<le> unat x" "unat x < 2 ^ Suc k"
    by blast
  then show ?thesis
    by (simp add: bsr_def)
qed

lemma bsr_unique:
  assumes "2 ^ k \<le> unat x" "unat x < 2 ^ Suc k"
  shows "bsr x = int k"
proof -
  have "(0 :: nat) < 2 ^ k" by simp
  then have "0 < unat x"
    using assms(1) by linarith
  then have "x \<noteq> 0"
    by (simp add: unat_gt_0)
  note b = bsr_nonzero [OF this]
  have "(2 :: nat) ^ nat (bsr x) < 2 ^ Suc k"
    using b assms(2) by linarith
  then have "nat (bsr x) < Suc k"
    by (rule power_less_imp_less_exp [rotated]) simp
  moreover have "(2 :: nat) ^ k < 2 ^ Suc (nat (bsr x))"
    using b assms(1) by linarith
  then have "k < Suc (nat (bsr x))"
    by (rule power_less_imp_less_exp [rotated]) simp
  ultimately show ?thesis
    using b by linarith
qed

lemma sint_push_bit_1:
  assumes "k < 63"
  shows "sint (push_bit k (1 :: 64 word)) = 2 ^ k"
proof -
  have lt: "(2 :: int) ^ k < 2 ^ 63"
    using assms by (intro power_strict_increasing) auto
  have lt': "(2 :: int) ^ k < 2 ^ LENGTH(64)"
    using assms by (intro power_strict_increasing) auto
  have ge: "- (2 ^ 63) \<le> (2 :: int) ^ k"
    by (rule order_trans [of _ 0]) simp_all
  have "(word_of_int (2 ^ k) :: 64 word) = 2 ^ k"
    by simp
  then have "uint ((2 :: 64 word) ^ k) = 2 ^ k"
    by (rule word_of_int_inverse) (use lt' in simp_all)
  moreover have "sint ((2 :: 64 word) ^ k) = signed_take_bit 63 (uint ((2 :: 64 word) ^ k))"
    by (simp only: sint_uint) simp
  ultimately show ?thesis
    using signed_take_bit_int_eq_self [OF ge lt] by (simp only: push_bit_of_1)
qed

lemma unat_distance:
  assumes "first \<le> lst" "lst - first < 2 ^ 64"
  shows "unat (distance first lst) = nat (lst - first)"
proof -
  have "lst - first < 2 ^ LENGTH(64)"
    using assms(2) by simp
  then have "uint (word_of_int (lst - first) :: 64 word) = lst - first"
    using assms(1) by (intro word_of_int_inverse [OF refl]) simp_all
  then show ?thesis
    by (simp only: distance_def unat_eq_nat_uint)
qed

lemma initial_step_power:
  assumes "n \<noteq> 0" "unat n < 2 ^ 63"
  shows "initial_step n = 2 ^ nat (bsr n)"
proof -
  note b = bsr_nonzero [OF assms(1)]
  have "(2::nat) ^ nat (bsr n) < 2 ^ 63"
    using b assms(2) by linarith
  then have "nat (bsr n) < 63"
    by (rule power_less_imp_less_exp [rotated]) simp
  then show ?thesis
    unfolding initial_step_def by (rule sint_push_bit_1)
qed

lemma initial_step_distance:
  assumes "2 ^ k \<le> lst - first" "lst - first < 2 ^ Suc k" "k < 63"
  shows "initial_step (distance first lst) = 2 ^ k \<and> bsr (distance first lst) = int k"
proof -
  have "(2 :: int) ^ Suc k \<le> 2 ^ 63"
    using assms(3) by (intro power_increasing) auto
  also have "(2 :: int) ^ 63 < 2 ^ 64"
    by (intro power_strict_increasing) auto
  finally have lt: "lst - first < 2 ^ 64"
    using assms(2) by linarith
  have "(0 :: int) < 2 ^ k" by simp
  then have le: "first \<le> lst"
    using assms(1) by linarith
  have u: "unat (distance first lst) = nat (lst - first)"
    using le lt by (rule unat_distance)
  have "int (2 ^ k) \<le> lst - first" "lst - first < int (2 ^ Suc k)"
    using assms(1,2) by simp_all
  then have "2 ^ k \<le> nat (lst - first)" "nat (lst - first) < 2 ^ Suc k"
    by linarith+
  then have b: "bsr (distance first lst) = int k"
    unfolding u [symmetric] by (rule bsr_unique)
  then show ?thesis
    using sint_push_bit_1 [OF assms(3)] by (simp add: initial_step_def)
qed

lemma Branchless_loop_in_bounds:
  "0 \<le> first \<Longrightarrow> first + step < int (length (mem s)) \<Longrightarrow>
     \<exists>p. Branchless_loop s first step pos val = (Inr p, s) \<and> pos \<le> p \<and>
       (if 0 < step then p < pos + 2 * step else p = pos)"
proof (induction s first step pos val rule: Branchless_loop.induct)
  case (1 s first step pos val)
  show ?case
  proof (cases "0 < step")
    case False
    then show ?thesis
      by (subst Branchless_loop.simps) simp
  next
    case True
    then have d: "deref s (first + step) = Inr (mem s ! nat (first + step))"
      using "1.prems" by (simp add: deref_def)
    let ?pos = "if mem s ! nat (first + step) < val then pos + step else pos"
    have "first + step div 2 < int (length (mem s))"
      using True "1.prems"(2) by linarith
    from "1.IH" [OF True d "1.prems"(1) this] obtain p where
      p: "Branchless_loop s first (step div 2) ?pos val = (Inr p, s)" "?pos \<le> p"
        "if 0 < step div 2 then p < ?pos + 2 * (step div 2) else p = ?pos"
      by blast
    have "pos \<le> p" "p < pos + 2 * step"
      using p(2,3) True by (auto split: if_splits)
    then show ?thesis
      using True d p(1) by (subst Branchless_loop.simps) simp
  qed
qed

subsection \<open>The state after a call\<close>

lemma LinearSearch_loop_frame: "snd (LinearSearch_loop s runner lst val) = s"
  by (induction s runner lst val rule: LinearSearch_loop.induct)
    ((subst LinearSearch_loop.simps), auto split: sum.splits)

lemma ModelBiasedLinearSearch_right_frame: "snd (ModelBiasedLinearSearch_right s runner lst val) = s"
  by (induction s runner lst val rule: ModelBiasedLinearSearch_right.induct)
    ((subst ModelBiasedLinearSearch_right.simps), auto split: sum.splits)

lemma ModelBiasedLinearSearch_left_frame: "snd (ModelBiasedLinearSearch_left s runner first val) = s"
  by (induction s runner first val rule: ModelBiasedLinearSearch_left.induct)
    ((subst ModelBiasedLinearSearch_left.simps), auto split: sum.splits)

lemma lower_bound_loop_frame: "snd (lower_bound_loop s first len val) = s"
  by (induction s first len val rule: lower_bound_loop.induct)
    ((subst lower_bound_loop.simps), auto split: sum.splits)

lemma SIMD_loop_frame: "snd (SIMD_loop s data first lst n i vals) = s"
  by (induction s data first lst n i vals rule: SIMD_loop.induct)
    ((subst SIMD_loop.simps), auto split: sum.splits)

lemma Branchless_loop_frame: "snd (Branchless_loop s first step pos val) = s"
  by (induction s first step pos val rule: Branchless_loop.induct)
    ((subst Branchless_loop.simps), auto split: sum.splits)

lemma lower_bound_frame: "snd (lower_bound s first lst val) = s"
  by (simp add: lower_bound_def lower_bound_loop_frame)

lemma Branchless_descent_frame: "snd (Branchless_descent s first n val) = s"
  using Branchless_loop_frame [of s first "initial_step n" "MINUS_ONE s" val]
  by (auto simp: Branchless_descent_def split: prod.splits sum.splits)

lemma call_is_pureI: "snd (f s) = s \<Longrightarrow> call_is_pure f s"
  by (cases "f s") (simp add: call_is_pure_def)

lemma partial_call_is_pureI: "\<exists>r. f s = Some (r, s) \<Longrightarrow> partial_call_is_pure f s"
  by (auto simp: partial_call_is_pure_def)

lemma ExponentialSearch_frame: "\<exists>r. ExponentialSearch s first lst prd val = Some (r, s)"
proof (cases "deref s first")
  case (Inl e)
  then show ?thesis by (simp add: ExponentialSearch_def)
next
  case (Inr x)
  obtain r where r: "ExponentialSearch_loop s 1 first (first + 1) lst val = Some (r, s)"
    using ExponentialSearch_loop_returns [of 1 s first "first + 1" lst val] by auto
  obtain q where q: "lower_bound s (fst (projr r)) (min (snd (projr r) + 1) lst) val = (q, s)"
    using lower_bound_frame [of s "fst (projr r)" "min (snd (projr r) + 1) lst" val]
    by (metis prod.collapse)
  show ?thesis
    using Inr r q by (cases r) (auto simp: ExponentialSearch_def)
qed

lemma ModelBiasedExponentialSearch_frame:
  "\<exists>r. ModelBiasedExponentialSearch s first lst prd val = Some (r, s)"
proof (cases "deref s prd")
  case (Inl e)
  then show ?thesis by (simp add: ModelBiasedExponentialSearch_def)
next
  case (Inr x)
  obtain r where r: "ExponentialSearch_loop s 1 prd (prd + 1) lst val = Some (r, s)"
    using ExponentialSearch_loop_returns [of 1 s prd "prd + 1" lst val] by auto
  obtain q where q: "lower_bound s (fst (projr r)) (min (snd (projr r) + 1) lst) val = (q, s)"
    using lower_bound_frame [of s "fst (projr r)" "min (snd (projr r) + 1) lst" val]
    by (metis prod.collapse)
  obtain r' where r': "ModelBiasedExponentialSearch_left s 1 prd (prd - 1) first val = Some (r', s)"
    using ModelBiasedExponentialSearch_left_returns [of 1 s prd "prd - 1" first val] by auto
  obtain q' where q': "lower_bound s (max first (snd (projr r'))) (fst (projr r')) val = (q', s)"
    using lower_bound_frame [of s "max first (snd (projr r'))" "fst (projr r')" val]
    by (metis prod.collapse)
  show ?thesis
    using Inr r q r' q' by (cases r; cases r') (auto simp: ModelBiasedExponentialSearch_def)
qed

section \<open>The claims\<close>

subsection \<open>Lower-bound equivalence\<close>

text \<open>
  Claim C1: for every strategy, every ascending non-empty sequence, every query value and
  every valid predicted position, the returned position is the one the reference scan
  returns. The code does not do this. On the first seven positions of the array
  \<open>[1, 3, 3, 5, 8, 13, 21, 34]\<close>, which are sorted, and the query \<open>5\<close>,
  \<open>LinearSearch_SIMD\<close> returns position \<open>0\<close> where the reference scan returns \<open>3\<close>: its
  mask marks the lanes that are less than the query, and lane \<open>0\<close> is. When the sequence is
  the whole array, its eight-lane load reads position \<open>7\<close>, behind the last element. On the
  sequence and the query \<open>3\<close>, \<open>BinarySearch_Branchless\<close> returns position \<open>0\<close> where the
  reference scan returns \<open>1\<close>: it probes \<open>first + step\<close>, never \<open>first + pos + step\<close>, and
  never position \<open>0\<close>. On the five-element array \<open>[1, 2, 3, 4, 5]\<close> and the query \<open>9\<close> it
  returns position \<open>7\<close>, which is not in \<open>[first, last]\<close>. \<open>LinearSearch\<close> returns the
  reference position on the first two inputs.
\<close>

theorem lower_bound_equivalence_fails:
  "sorted_range scenario_in_array 0 7 \<and>
   reference_scan scenario_in_array 0 7 5 = 3 \<and>
   fst (LinearSearch scenario_in_array 0 7 0 5) = Inr 3 \<and>
   fst (LinearSearch_SIMD scenario_in_array 0 7 0 5) = Inr 0 \<and>
   fst (LinearSearch_SIMD scenario 0 7 0 5) = Inl (OutOfBounds 7) \<and>
   sorted_range scenario 0 7 \<and>
   reference_scan scenario 0 7 3 = 1 \<and>
   fst (LinearSearch scenario 0 7 0 3) = Inr 1 \<and>
   fst (BinarySearch_Branchless scenario 0 7 0 3) = Inr 0 \<and>
   sorted_range (scenario\<lparr>mem := [1, 2, 3, 4, 5]\<rparr>) 0 5 \<and>
   reference_scan (scenario\<lparr>mem := [1, 2, 3, 4, 5]\<rparr>) 0 5 9 = 5 \<and>
   fst (BinarySearch_Branchless (scenario\<lparr>mem := [1, 2, 3, 4, 5]\<rparr>) 0 5 0 9) = Inr 7"
  by code_simp

subsection \<open>The probes of the branchless descent\<close>

text \<open>
  Claim C2: every element the step-halving loop reads is at an offset strictly less than
  \<open>n\<close> from the start of the sub-range of length \<open>n\<close>, also when \<open>n\<close> is a power of two.
  The code does not do this. For the eight-element array \<open>[1, 3, 3, 5, 8, 13, 21, 34]\<close>
  the first step is \<open>8\<close>, and the first probe of \<open>BinarySearch_Branchless\<close> is at position
  \<open>first + 8\<close>, one behind the last element; so is that of
  \<open>ModelBiasedBinarySearch_Branchless\<close> with the predicted position \<open>0\<close> and the query \<open>5\<close>,
  whose half-range is the whole array. On a one-element array the only probe is at offset
  \<open>1\<close>.
\<close>

theorem branchless_probe_at_offset_n:
  "initial_step (distance 0 8) = 8 \<and>
   fst (BinarySearch_Branchless scenario_in_array 0 8 0 5) = Inl (OutOfBounds 8) \<and>
   fst (ModelBiasedBinarySearch_Branchless scenario_in_array 0 8 0 5) = Inl (OutOfBounds 8) \<and>
   fst (BinarySearch_Branchless \<lparr>mem = [7 :: 64 word], MINUS_ONE = - 1\<rparr> 0 1 0 9) =
     Inl (OutOfBounds 1)"
  by code_simp

subsection \<open>Hint invariance\<close>

text \<open>
  Claim C3: for every model-biased strategy, changing the predicted position over the
  valid positions of the range never changes the returned position. The code does not do
  this. On the sequence and the query \<open>13\<close>, \<open>ModelBiasedBinarySearch_Branchless\<close> returns
  position \<open>3\<close> for the predicted position \<open>4\<close> and position \<open>7\<close> for the predicted position
  \<open>6\<close>; the reference position is \<open>5\<close>. On the first seven positions of the longer array and
  the query \<open>1\<close>, \<open>ModelBiasedLinearSearch_SIMD\<close> returns position \<open>7\<close> for the predicted
  position \<open>0\<close> and position \<open>0\<close> for the predicted position \<open>4\<close>.
\<close>

theorem hint_changes_result:
  "sorted_range scenario 0 7 \<and>
   reference_scan scenario 0 7 13 = 5 \<and>
   fst (ModelBiasedBinarySearch_Branchless scenario 0 7 4 13) = Inr 3 \<and>
   fst (ModelBiasedBinarySearch_Branchless scenario 0 7 6 13) = Inr 7 \<and>
   sorted_range scenario_in_array 0 7 \<and>
   fst (ModelBiasedLinearSearch_SIMD scenario_in_array 0 7 0 1) = Inr 7 \<and>
   fst (ModelBiasedLinearSearch_SIMD scenario_in_array 0 7 4 1) = Inr 0"
  by code_simp

subsection \<open>The half-range of \<open>ModelBiasedBinarySearch_Branchless\<close>\<close>

text \<open>
  Claim C4: \<open>ModelBiasedBinarySearch_Branchless\<close> descends on the half-range chosen by
  comparing the element at the predicted position with the query, \<open>[pred, last)\<close> when
  that element is less, and returns the lower-bound position within that half-range,
  probes and result counted from the start of the half-range. The code does not do this:
  it takes only the length from the half-range and counts probes and result from \<open>first\<close>.
  On the sequence with the predicted position \<open>4\<close> and the query \<open>13\<close> the element \<open>8\<close> is
  less, the half-range is the positions \<open>4\<close> to \<open>6\<close> and its lower-bound position is \<open>5\<close>;
  the code returns position \<open>3\<close>, outside the half-range. It returns the same when the
  elements of the half-range behind the predicted position are replaced, since it does
  not read them.
\<close>

theorem biased_branchless_counts_from_first:
  "deref scenario 4 = Inr 8 \<and>
   reference_scan scenario 4 7 13 = 5 \<and>
   fst (ModelBiasedBinarySearch_Branchless scenario 0 7 4 13) = Inr 3 \<and>
   reference_scan (scenario\<lparr>mem := [1, 3, 3, 5, 8, 9, 10]\<rparr>) 4 7 13 = 7 \<and>
   fst (ModelBiasedBinarySearch_Branchless (scenario\<lparr>mem := [1, 3, 3, 5, 8, 9, 10]\<rparr>) 0 7 4 13) =
     Inr 3"
  by code_simp

subsection \<open>\<open>ModelBiasedLinearSearch\<close>\<close>

text \<open>
  Claim C5: for every sorted non-empty range and every predicted position in it,
  \<open>ModelBiasedLinearSearch\<close> compares the element at the predicted position with the
  query. If it is less, the scan goes right and returns the first position whose element
  is not less than the query, or \<open>last\<close> if there is none; this position is behind the
  predicted one and is found in the part of the range that starts there. Otherwise the
  scan goes left and returns one past the last position whose element is less than the
  query, or \<open>first\<close> if no element is less; this position is not behind the predicted one
  and is found in the part of the range that ends there. The state is left as it was.
\<close>

theorem ModelBiasedLinearSearch_scans:
  assumes "sorted_range s first lst" "first \<le> prd" "prd < lst"
  shows "ModelBiasedLinearSearch s first lst prd val =
      (if mem s ! nat prd < val then (Inr (reference_scan s first lst val), s)
       else (Inr (past_last_less s first lst val), s)) \<and>
     (if mem s ! nat prd < val
      then reference_scan s first lst val = reference_scan s prd lst val \<and>
        prd < reference_scan s first lst val
      else past_last_less s first lst val = past_last_less s first (prd + 1) val \<and>
        past_last_less s first lst val \<le> prd)"
proof -
  note v = sorted_range_valid [OF assms(1)]
  have d: "deref s prd = Inr (mem s ! nat prd)"
    using v assms(2,3) by (auto simp: deref_def valid_range_def)
  have w: "valid_range s prd lst"
    using v assms(2,3) by (auto simp: valid_range_def)
  show ?thesis
  proof (cases "mem s ! nat prd < val")
    case True
    then show ?thesis
      using d reference_scan_from_pred [OF assms True] ModelBiasedLinearSearch_right_scan [OF w, of val]
      by (simp add: ModelBiasedLinearSearch_def)
  next
    case False
    then have "val \<le> mem s ! nat prd" by simp
    from ModelBiasedLinearSearch_left_past_last_less [OF assms this] False d
    show ?thesis
      by (simp add: ModelBiasedLinearSearch_def)
  qed
qed

theorem ModelBiasedLinearSearch_scans_witness:
  "sorted_range scenario 0 7 \<and> (0 :: int) \<le> 4 \<and> (4 :: int) < 7 \<and>
   ModelBiasedLinearSearch scenario 0 7 4 3 = (Inr 1, scenario) \<and>
   ModelBiasedLinearSearch scenario 0 7 4 13 = (Inr 5, scenario)"
proof -
  have h: "sorted_range scenario 0 7"
    by code_simp
  have left: "\<not> mem scenario ! nat 4 < 3" "past_last_less scenario 0 7 3 = 1"
    by code_simp+
  have right: "mem scenario ! nat 4 < 13" "reference_scan scenario 0 7 13 = 5"
    by code_simp+
  have "ModelBiasedLinearSearch scenario 0 7 4 3 = (Inr 1, scenario)"
    using ModelBiasedLinearSearch_scans [OF h, of 4 3] left by simp
  moreover have "ModelBiasedLinearSearch scenario 0 7 4 13 = (Inr 5, scenario)"
    using ModelBiasedLinearSearch_scans [OF h, of 4 13] right by simp
  ultimately show ?thesis
    using h by simp
qed

subsection \<open>\<open>ExponentialSearch\<close>\<close>

text \<open>
  Claim C6: for every sorted non-empty range and query, \<open>ExponentialSearch\<close> returns
  \<open>first\<close> at once when the first element is not less than the query. Otherwise it doubles
  a bound, probing the offsets \<open>1\<close>, \<open>3\<close>, \<open>7\<close>, ... (the offset \<open>2 ^ (j + 1) - 1\<close> after \<open>j\<close>
  doublings), until the probe position reaches or passes \<open>last\<close> or the probed element is
  not less than the query: every earlier probe was inside the range at an element less
  than the query. It then returns the result of \<open>std::lower_bound\<close> over
  \<open>[prev, min(curr + 1, last))\<close>, where \<open>prev\<close> is the probe before. In both cases the call
  returns, the result is the position of the reference scan over the whole range, and the
  state is left as it was.
\<close>

theorem ExponentialSearch_lower_bound:
  assumes "sorted_range s first lst" "first < lst"
  shows "ExponentialSearch s first lst prd val = Some (Inr (reference_scan s first lst val), s) \<and>
     (if val \<le> mem s ! nat first then reference_scan s first lst val = first
      else \<exists>j. ExponentialSearch_loop s 1 first (first + 1) lst val =
               Some (Inr (first + 2 ^ j - 1, first + 2 ^ Suc j - 1), s) \<and>
             (\<forall>i\<le>j. first + 2 ^ i - 1 < lst \<and> mem s ! nat (first + 2 ^ i - 1) < val) \<and>
             (lst \<le> first + 2 ^ Suc j - 1 \<or> val \<le> mem s ! nat (first + 2 ^ Suc j - 1)) \<and>
             lower_bound s (first + 2 ^ j - 1) (min (first + 2 ^ Suc j - 1 + 1) lst) val =
               (Inr (reference_scan s first lst val), s))"
proof -
  note srt = assms(1)
  note v = sorted_range_valid [OF srt]
  have f0: "0 \<le> first" and l: "lst \<le> int (length (mem s))"
    using v by (auto simp: valid_range_def)
  have d: "deref s first = Inr (mem s ! nat first)"
    using f0 l assms(2) by (simp add: deref_def)
  show ?thesis
  proof (cases "val \<le> mem s ! nat first")
    case True
    have "reference_scan s first lst val = first"
      using reference_scan_step [OF v assms(2), of val] True by simp
    then show ?thesis
      using True d by (simp add: ExponentialSearch_def)
  next
    case False
    then have less0: "mem s ! nat first < val" by simp
    have init: "(2 :: nat) ^ 0 = 1" "first + (2 :: int) ^ 0 - 1 = first"
        "first + (2 :: int) ^ Suc 0 - 1 = first + 1"
      by simp_all
    from ExponentialSearch_loop_result [OF f0 l, of 0 val] obtain j where
      j: "ExponentialSearch_loop s (2 ^ 0) (first + 2 ^ 0 - 1) (first + 2 ^ Suc 0 - 1) lst val =
            Some (Inr (first + 2 ^ j - 1, first + 2 ^ Suc j - 1), s)"
        "\<forall>i. 0 < i \<and> i \<le> j \<longrightarrow> first + 2 ^ i - 1 < lst \<and> mem s ! nat (first + 2 ^ i - 1) < val"
        "lst \<le> first + 2 ^ Suc j - 1 \<or> val \<le> mem s ! nat (first + 2 ^ Suc j - 1)"
      by blast
    note loop = j(1) [unfolded init]
    let ?prev = "first + 2 ^ j - 1" and ?cur = "first + 2 ^ Suc j - 1"
    have probes: "first + 2 ^ i - 1 < lst \<and> mem s ! nat (first + 2 ^ i - 1) < val" if "i \<le> j" for i
    proof (cases "i = 0")
      case True
      then show ?thesis using less0 assms(2) by simp
    next
      case False
      with that j(2) show ?thesis by simp
    qed
    have "(1 :: int) \<le> 2 ^ j" "(2 :: int) ^ j < 2 ^ Suc j"
      by simp_all
    then have prev: "first \<le> ?prev" "?prev < lst" "mem s ! nat ?prev < val" "?prev < ?cur"
      using probes [of j] by auto
    let ?b = "min (?cur + 1) lst"
    have b: "?prev \<le> ?b" "?b \<le> lst"
      using prev(2,4) by linarith+
    have sub: "sorted_range s ?prev ?b"
      using prev(1) b by (rule sorted_range_sub [OF srt])
    have "reference_scan s first lst val = reference_scan s ?prev ?b val"
    proof (rule reference_scan_window [OF v prev(1) b])
      show "mem s ! nat i < val" if "first \<le> i" "i < ?prev" for i
      proof -
        have "mem s ! nat i \<le> mem s ! nat ?prev"
          using that prev(2) by (intro sorted_range_nth [OF srt]) linarith+
        with prev(3) show ?thesis by simp
      qed
      show "val \<le> mem s ! nat ?b" if "?b < lst"
      proof -
        from that have c: "?b = ?cur + 1" "?cur + 1 < lst" by linarith+
        then have "?cur < lst" by linarith
        with j(3) have "val \<le> mem s ! nat ?cur" by linarith
        also have "\<dots> \<le> mem s ! nat (?cur + 1)"
          using c(2) prev(1,4) by (intro sorted_range_nth [OF srt]) linarith+
        finally show ?thesis using c(1) by simp
      qed
    qed
    with lower_bound_scan [OF sub, of val]
    have lb: "lower_bound s ?prev ?b val = (Inr (reference_scan s first lst val), s)"
      by simp
    have "ExponentialSearch s first lst prd val = Some (Inr (reference_scan s first lst val), s)"
      using d False loop lb by (simp add: ExponentialSearch_def)
    moreover have "\<exists>j. ExponentialSearch_loop s 1 first (first + 1) lst val =
               Some (Inr (first + 2 ^ j - 1, first + 2 ^ Suc j - 1), s) \<and>
             (\<forall>i\<le>j. first + 2 ^ i - 1 < lst \<and> mem s ! nat (first + 2 ^ i - 1) < val) \<and>
             (lst \<le> first + 2 ^ Suc j - 1 \<or> val \<le> mem s ! nat (first + 2 ^ Suc j - 1)) \<and>
             lower_bound s (first + 2 ^ j - 1) (min (first + 2 ^ Suc j - 1 + 1) lst) val =
               (Inr (reference_scan s first lst val), s)"
      using loop j(3) probes lb by (intro exI [of _ j]) blast
    ultimately show ?thesis
      using False by (simp only: if_False simp_thms)
  qed
qed

theorem ExponentialSearch_lower_bound_witness:
  "sorted_range scenario 0 7 \<and> (0 :: int) < 7 \<and>
   ExponentialSearch scenario 0 7 0 22 = Some (Inr 7, scenario) \<and>
   ExponentialSearch scenario 0 7 0 4 = Some (Inr 3, scenario)"
proof -
  have h: "sorted_range scenario 0 7"
    by code_simp
  have r: "reference_scan scenario 0 7 22 = 7" "reference_scan scenario 0 7 4 = 3"
    by code_simp+
  have "ExponentialSearch scenario 0 7 0 22 = Some (Inr 7, scenario)"
    using ExponentialSearch_lower_bound [OF h, of 0 22] r by simp
  moreover have "ExponentialSearch scenario 0 7 0 4 = Some (Inr 3, scenario)"
    using ExponentialSearch_lower_bound [OF h, of 0 4] r by simp
  ultimately show ?thesis
    using h by simp
qed

subsection \<open>The scenarios of the specification\<close>

text \<open>
  Claim C7: on the sequence \<open>[1, 3, 3, 5, 8, 13, 21]\<close> every strategy returns position \<open>3\<close>
  for the query \<open>5\<close>, \<open>3\<close> for \<open>4\<close>, \<open>0\<close> for \<open>0\<close> and \<open>7\<close> for \<open>22\<close>; with the predicted position
  \<open>4\<close> and the query \<open>3\<close> every model-biased strategy returns position \<open>1\<close>. The code does
  not do this. \<open>LinearSearch_SIMD\<close> on the first seven positions of the longer array
  returns \<open>0\<close>, \<open>0\<close>, \<open>7\<close> and \<open>0\<close> for the four queries; with the predicted position \<open>4\<close> and the
  query \<open>3\<close>, \<open>ModelBiasedLinearSearch_SIMD\<close> returns \<open>0\<close> there and
  \<open>ModelBiasedBinarySearch_Branchless\<close> returns \<open>0\<close> on the sequence. The six strategies
  without vector code or branchless descent return the positions of the claim, and so
  does \<open>BinarySearch_Branchless\<close> for the four queries.
\<close>

theorem scenario_results:
  "map (\<lambda>q. fst (LinearSearch_SIMD scenario_in_array 0 7 4 q)) [5, 4, 0, 22] =
     [Inr 0, Inr 0, Inr 7, Inr 0] \<and>
   fst (ModelBiasedLinearSearch_SIMD scenario_in_array 0 7 4 3) = Inr 0 \<and>
   fst (ModelBiasedBinarySearch_Branchless scenario 0 7 4 3) = Inr 0 \<and>
   map (\<lambda>q. fst (LinearSearch scenario 0 7 4 q)) [5, 4, 0, 22, 3] =
     [Inr 3, Inr 3, Inr 0, Inr 7, Inr 1] \<and>
   map (\<lambda>q. fst (ModelBiasedLinearSearch scenario 0 7 4 q)) [5, 4, 0, 22, 3] =
     [Inr 3, Inr 3, Inr 0, Inr 7, Inr 1] \<and>
   map (\<lambda>q. fst (BinarySearch scenario 0 7 4 q)) [5, 4, 0, 22, 3] =
     [Inr 3, Inr 3, Inr 0, Inr 7, Inr 1] \<and>
   map (\<lambda>q. fst (ModelBiasedBinarySearch scenario 0 7 4 q)) [5, 4, 0, 22, 3] =
     [Inr 3, Inr 3, Inr 0, Inr 7, Inr 1] \<and>
   map (\<lambda>q. map_option fst (ExponentialSearch scenario 0 7 4 q)) [5, 4, 0, 22, 3] =
     [Some (Inr 3), Some (Inr 3), Some (Inr 0), Some (Inr 7), Some (Inr 1)] \<and>
   map (\<lambda>q. map_option fst (ModelBiasedExponentialSearch scenario 0 7 4 q)) [5, 4, 0, 22, 3] =
     [Some (Inr 3), Some (Inr 3), Some (Inr 0), Some (Inr 7), Some (Inr 1)] \<and>
   map (\<lambda>q. fst (BinarySearch_Branchless scenario 0 7 4 q)) [5, 4, 0, 22] =
     [Inr 3, Inr 3, Inr 0, Inr 7]"
  by code_simp

subsection \<open>Effects\<close>

text \<open>
  Claim C8: no strategy call changes the input sequence or any state that outlives the
  call: every element of the array is unchanged after every call, no strategy writes
  \<open>MINUS_ONE\<close>, and so a second call of the same strategy with the same arguments returns
  the same position. This holds for all eleven strategies, from every state and for all
  arguments, also those for which the call ends in an error; the two exponential
  searches return from every state.
\<close>

theorem strategies_leave_state_unchanged:
  fixes s :: "'a::linorder machine" and w :: "64 word machine"
  shows "call_is_pure (\<lambda>s. LinearSearch s first lst prd val) s \<and>
     call_is_pure (\<lambda>s. ModelBiasedLinearSearch s first lst prd val) s \<and>
     call_is_pure (\<lambda>s. BinarySearch s first lst prd val) s \<and>
     call_is_pure (\<lambda>s. ModelBiasedBinarySearch s first lst prd val) s \<and>
     partial_call_is_pure (\<lambda>s. ExponentialSearch s first lst prd val) s \<and>
     partial_call_is_pure (\<lambda>s. ModelBiasedExponentialSearch s first lst prd val) s \<and>
     call_is_pure (\<lambda>w. LinearSearch_SIMD w first lst prd key) w \<and>
     call_is_pure (\<lambda>w. ModelBiasedLinearSearch_SIMD w first lst prd key) w \<and>
     call_is_pure (\<lambda>s. BinarySearch_Branchless s first lst prd val) s \<and>
     call_is_pure (\<lambda>s. ModelBiasedBinarySearch_Branchless s first lst prd val) s"
proof (intro conjI)
  show "call_is_pure (\<lambda>s. LinearSearch s first lst prd val) s"
    by (rule call_is_pureI) (simp add: LinearSearch_def LinearSearch_loop_frame)
  show "call_is_pure (\<lambda>s. ModelBiasedLinearSearch s first lst prd val) s"
    by (rule call_is_pureI)
      (simp add: ModelBiasedLinearSearch_def ModelBiasedLinearSearch_right_frame
        ModelBiasedLinearSearch_left_frame split: sum.splits)
  show "call_is_pure (\<lambda>s. BinarySearch s first lst prd val) s"
    by (rule call_is_pureI) (simp add: BinarySearch_def lower_bound_frame)
  show "call_is_pure (\<lambda>s. ModelBiasedBinarySearch s first lst prd val) s"
    by (rule call_is_pureI) (simp add: ModelBiasedBinarySearch_def lower_bound_frame split: sum.splits)
  show "partial_call_is_pure (\<lambda>s. ExponentialSearch s first lst prd val) s"
    by (rule partial_call_is_pureI) (rule ExponentialSearch_frame)
  show "partial_call_is_pure (\<lambda>s. ModelBiasedExponentialSearch s first lst prd val) s"
    by (rule partial_call_is_pureI) (rule ModelBiasedExponentialSearch_frame)
  show "call_is_pure (\<lambda>w. LinearSearch_SIMD w first lst prd key) w"
    by (rule call_is_pureI) (simp add: LinearSearch_SIMD_def SIMD_loop_frame)
  show "call_is_pure (\<lambda>w. ModelBiasedLinearSearch_SIMD w first lst prd key) w"
    by (rule call_is_pureI)
      (simp add: ModelBiasedLinearSearch_SIMD_def SIMD_loop_frame split: sum.splits)
  show "call_is_pure (\<lambda>s. BinarySearch_Branchless s first lst prd val) s"
    by (rule call_is_pureI) (simp add: BinarySearch_Branchless_def Branchless_descent_frame)
  show "call_is_pure (\<lambda>s. ModelBiasedBinarySearch_Branchless s first lst prd val) s"
    by (rule call_is_pureI)
      (simp add: ModelBiasedBinarySearch_Branchless_def Branchless_descent_frame split: sum.splits)
qed

subsection \<open>\<open>bsr\<close>\<close>

text \<open>
  Claim C9: \<open>bsr(0) = -1\<close>, and for every \<open>x > 0\<close>, \<open>bsr(x)\<close> is the index of the highest
  set bit of \<open>x\<close>: \<open>2 ^ bsr(x) \<le> x < 2 ^ (bsr(x) + 1)\<close>. So for every range length \<open>n > 0\<close> the
  first step \<open>1 << bsr(n)\<close> of the branchless searches is the largest power of two that
  does not exceed \<open>n\<close>. The length is the result of \<open>std::distance\<close>, a signed 64-bit
  number that is not negative, hence below \<open>2 ^ 63\<close>; from \<open>2 ^ 63\<close> on, a value no range
  length takes, the shift would leave the positive numbers of \<open>intptr_t\<close>.
\<close>

theorem bsr_highest_set_bit:
  "bsr 0 = - 1 \<and>
   (\<forall>x. x \<noteq> 0 \<longrightarrow> 0 \<le> bsr x \<and> 2 ^ nat (bsr x) \<le> unat x \<and> unat x < 2 ^ (nat (bsr x) + 1)) \<and>
   (\<forall>n. n \<noteq> 0 \<and> unat n < 2 ^ 63 \<longrightarrow>
      initial_step n = 2 ^ nat (bsr n) \<and> initial_step n \<le> uint n \<and> uint n < 2 * initial_step n)"
proof (intro conjI allI impI)
  show "bsr 0 = - 1"
    by (simp add: bsr_def)
next
  fix x :: "64 word" assume "x \<noteq> 0"
  from bsr_nonzero [OF this]
  show "0 \<le> bsr x" "2 ^ nat (bsr x) \<le> unat x" "unat x < 2 ^ (nat (bsr x) + 1)"
    by simp_all
next
  fix n :: "64 word" assume n: "n \<noteq> 0 \<and> unat n < 2 ^ 63"
  then have s: "initial_step n = 2 ^ nat (bsr n)"
    by (intro initial_step_power) auto
  from n have b: "2 ^ nat (bsr n) \<le> unat n" "unat n < 2 ^ Suc (nat (bsr n))"
    using bsr_nonzero [of n] by auto
  show "initial_step n = 2 ^ nat (bsr n)"
    by (rule s)
  have "int (2 ^ nat (bsr n)) \<le> int (unat n)"
    using b(1) by (rule iffD2 [OF of_nat_le_iff])
  then show "initial_step n \<le> uint n"
    by (simp add: s)
  have "int (unat n) < int (2 ^ Suc (nat (bsr n)))"
    using b(2) by (rule iffD2 [OF of_nat_less_iff])
  then show "uint n < 2 * initial_step n"
    by (simp add: s)
qed

theorem bsr_highest_set_bit_witness:
  "(7 :: 64 word) \<noteq> 0 \<and> unat (7 :: 64 word) < 2 ^ 63 \<and> bsr 7 = 2 \<and> initial_step 7 = 4 \<and>
   (8 :: 64 word) \<noteq> 0 \<and> unat (8 :: 64 word) < 2 ^ 63 \<and> bsr 8 = 3 \<and> initial_step 8 = 8 \<and>
   bsr 0 = - 1"
proof -
  have h: "(7 :: 64 word) \<noteq> 0 \<and> unat (7 :: 64 word) < 2 ^ 63"
      "(8 :: 64 word) \<noteq> 0 \<and> unat (8 :: 64 word) < 2 ^ 63"
    by simp_all
  have b: "bsr 7 = 2" "bsr 8 = 3"
    by code_simp+
  have "initial_step 7 = 4" "initial_step 8 = 8"
    using bsr_highest_set_bit h b by simp_all
  then show ?thesis
    using bsr_highest_set_bit h b by simp
qed

subsection \<open>Empty ranges\<close>

text \<open>
  Claim C10: on an empty range, \<open>first = last\<close>, \<open>LinearSearch\<close> and \<open>BinarySearch\<close> return
  \<open>last\<close> without reading an element, for every predicted position and every query. The
  result does not depend on the array: it is the same in every state, also on the empty
  array, where every read is an error.
\<close>

theorem empty_range_returns_last:
  "LinearSearch s first first prd val = (Inr first, s) \<and>
   BinarySearch s first first prd val = (Inr first, s) \<and>
   LinearSearch \<lparr>mem = [], MINUS_ONE = m\<rparr> first first prd val = (Inr first, \<lparr>mem = [], MINUS_ONE = m\<rparr>) \<and>
   BinarySearch \<lparr>mem = [], MINUS_ONE = m\<rparr> first first prd val = (Inr first, \<lparr>mem = [], MINUS_ONE = m\<rparr>)"
  by (simp add: LinearSearch_def BinarySearch_def lower_bound_def LinearSearch_loop.simps
      lower_bound_loop.simps)

section \<open>Further properties\<close>

subsection \<open>The strategies that return the reference position\<close>

text \<open>
  \<open>LinearSearch\<close> returns the position of the reference scan on every range
  inside the array, sorted or not, and leaves the state as it was.
\<close>

theorem LinearSearch_is_reference_scan:
  assumes "valid_range s first lst"
  shows "LinearSearch s first lst prd val = (Inr (reference_scan s first lst val), s)"
  using LinearSearch_loop_scan [OF assms] by (simp add: LinearSearch_def)

theorem LinearSearch_is_reference_scan_witness:
  "valid_range scenario 0 7 \<and> LinearSearch scenario 0 7 0 5 = (Inr 3, scenario)"
proof -
  have v: "valid_range scenario 0 7"
    by code_simp
  have "reference_scan scenario 0 7 5 = 3"
    by code_simp
  then show ?thesis
    using LinearSearch_is_reference_scan [OF v, of 0 5] v by simp
qed

text \<open>
  \<open>BinarySearch\<close> returns the position of the reference scan on every sorted
  range.
\<close>

theorem BinarySearch_is_reference_scan:
  assumes "sorted_range s first lst"
  shows "BinarySearch s first lst prd val = (Inr (reference_scan s first lst val), s)"
  using lower_bound_scan [OF assms] by (simp add: BinarySearch_def)

theorem BinarySearch_is_reference_scan_witness:
  "sorted_range scenario 0 7 \<and> BinarySearch scenario 0 7 0 5 = (Inr 3, scenario)"
proof -
  have h: "sorted_range scenario 0 7"
    by code_simp
  have "reference_scan scenario 0 7 5 = 3"
    by code_simp
  then show ?thesis
    using BinarySearch_is_reference_scan [OF h, of 0 5] h by simp
qed

text \<open>
  \<open>ModelBiasedBinarySearch\<close> returns the position of the reference scan on
  every sorted range, for every predicted position in the range: its result does not
  depend on the hint.
\<close>

theorem ModelBiasedBinarySearch_is_reference_scan:
  assumes "sorted_range s first lst" "first \<le> prd" "prd < lst"
  shows "ModelBiasedBinarySearch s first lst prd val = (Inr (reference_scan s first lst val), s)"
proof -
  note v = sorted_range_valid [OF assms(1)]
  have d: "deref s prd = Inr (mem s ! nat prd)"
    using v assms(2,3) by (auto simp: deref_def valid_range_def)
  show ?thesis
  proof (cases "mem s ! nat prd < val")
    case True
    have "sorted_range s prd lst"
      using assms by (intro sorted_range_sub [OF assms(1)]) auto
    from lower_bound_scan [OF this, of val] reference_scan_from_pred [OF assms True] d True
    show ?thesis by (simp add: ModelBiasedBinarySearch_def)
  next
    case False
    have "sorted_range s first prd"
      using assms by (intro sorted_range_sub [OF assms(1)]) auto
    from lower_bound_scan [OF this, of val] reference_scan_to_pred [OF assms, of val] d False
    show ?thesis by (simp add: ModelBiasedBinarySearch_def)
  qed
qed

theorem ModelBiasedBinarySearch_is_reference_scan_witness:
  "sorted_range scenario 0 7 \<and> (0 :: int) \<le> 4 \<and> (4 :: int) < 7 \<and>
   ModelBiasedBinarySearch scenario 0 7 4 3 = (Inr 1, scenario)"
proof -
  have h: "sorted_range scenario 0 7"
    by code_simp
  have "reference_scan scenario 0 7 3 = 1"
    by code_simp
  then show ?thesis
    using ModelBiasedBinarySearch_is_reference_scan [OF h, of 4 3] h by simp
qed

text \<open>
  \<open>ModelBiasedLinearSearch\<close> returns the position of the reference scan on
  every sorted range, for every predicted position in the range.
\<close>

theorem ModelBiasedLinearSearch_is_reference_scan:
  assumes "sorted_range s first lst" "first \<le> prd" "prd < lst"
  shows "ModelBiasedLinearSearch s first lst prd val = (Inr (reference_scan s first lst val), s)"
proof -
  note v = sorted_range_valid [OF assms(1)]
  have d: "deref s prd = Inr (mem s ! nat prd)"
    using v assms(2,3) by (auto simp: deref_def valid_range_def)
  have w: "valid_range s prd lst"
    using v assms(2,3) by (auto simp: valid_range_def)
  show ?thesis
  proof (cases "mem s ! nat prd < val")
    case True
    then show ?thesis
      using d reference_scan_from_pred [OF assms True] ModelBiasedLinearSearch_right_scan [OF w, of val]
      by (simp add: ModelBiasedLinearSearch_def)
  next
    case False
    then have "val \<le> mem s ! nat prd" by simp
    from ModelBiasedLinearSearch_left_past_last_less [OF assms this] False d
      past_last_less_eq_reference_scan [OF assms(1), of val]
    show ?thesis
      by (simp add: ModelBiasedLinearSearch_def)
  qed
qed

theorem ModelBiasedLinearSearch_is_reference_scan_witness:
  "sorted_range scenario 0 7 \<and> (0 :: int) \<le> 6 \<and> (6 :: int) < 7 \<and>
   ModelBiasedLinearSearch scenario 0 7 6 3 = (Inr 1, scenario)"
proof -
  have h: "sorted_range scenario 0 7"
    by code_simp
  have "reference_scan scenario 0 7 3 = 1"
    by code_simp
  then show ?thesis
    using ModelBiasedLinearSearch_is_reference_scan [OF h, of 6 3] h by simp
qed

text \<open>
  \<open>ModelBiasedExponentialSearch\<close> returns, and returns the position of the
  reference scan, on every sorted range, for every predicted position in the range.
\<close>

theorem ModelBiasedExponentialSearch_is_reference_scan:
  assumes "sorted_range s first lst" "first \<le> prd" "prd < lst"
  shows "ModelBiasedExponentialSearch s first lst prd val =
     Some (Inr (reference_scan s first lst val), s)"
proof -
  note srt = assms(1)
  note v = sorted_range_valid [OF srt]
  have f0: "0 \<le> first" and l: "lst \<le> int (length (mem s))"
    using v by (auto simp: valid_range_def)
  have d: "deref s prd = Inr (mem s ! nat prd)"
    using f0 l assms(2,3) by (auto simp: deref_def)
  show ?thesis
  proof (cases "mem s ! nat prd < val")
    case True
    from ExponentialSearch_loop_generic [of prd lst s 1 "prd + 1" val] obtain p c where
      pc: "ExponentialSearch_loop s 1 prd (prd + 1) lst val = Some (Inr (p, c), s)"
        "prd \<le> p" "p < lst" "mem s ! nat p < val" "p < c" "lst \<le> c \<or> val \<le> mem s ! nat c"
      using f0 l assms(2,3) True by auto
    let ?b = "min (c + 1) lst"
    have b: "p \<le> ?b" "?b \<le> lst" using pc(3,5) by linarith+
    have fp: "first \<le> p" using assms(2) pc(2) by simp
    have sub: "sorted_range s p ?b"
      using fp b by (rule sorted_range_sub [OF srt])
    have "reference_scan s first lst val = reference_scan s p ?b val"
    proof (rule reference_scan_window [OF v fp b])
      show "mem s ! nat i < val" if "first \<le> i" "i < p" for i
      proof -
        have "mem s ! nat i \<le> mem s ! nat p"
          using that pc(3) by (intro sorted_range_nth [OF srt]) linarith+
        with pc(4) show ?thesis by simp
      qed
      show "val \<le> mem s ! nat ?b" if "?b < lst"
      proof -
        from that have e: "?b = c + 1" "c + 1 < lst" by linarith+
        then have "c < lst" by linarith
        with pc(6) have "val \<le> mem s ! nat c" by linarith
        also have "\<dots> \<le> mem s ! nat (c + 1)"
          using e(2) fp pc(5) by (intro sorted_range_nth [OF srt]) linarith+
        finally show ?thesis using e(1) by simp
      qed
    qed
    with lower_bound_scan [OF sub, of val]
    have "lower_bound s p ?b val = (Inr (reference_scan s first lst val), s)"
      by simp
    then show ?thesis
      using d True pc(1) by (simp add: ModelBiasedExponentialSearch_def)
  next
    case False
    then have ge: "val \<le> mem s ! nat prd" by simp
    from ModelBiasedExponentialSearch_left_result [of first prd s 1 val "prd - 1"] obtain p c where
      pc: "ModelBiasedExponentialSearch_left s 1 prd (prd - 1) first val = Some (Inr (p, c), s)"
        "first \<le> p" "p \<le> prd" "val \<le> mem s ! nat p" "c < p" "c \<le> first \<or> mem s ! nat c < val"
      using f0 l assms(2,3) ge by auto
    let ?a = "max first c"
    have a: "first \<le> ?a" "?a \<le> p" "p \<le> lst" using pc(2,3,5) assms(3) by linarith+
    have sub: "sorted_range s ?a p"
      using a by (rule sorted_range_sub [OF srt])
    have "reference_scan s first lst val = reference_scan s ?a p val"
    proof (rule reference_scan_window [OF v a])
      show "mem s ! nat i < val" if "first \<le> i" "i < ?a" for i
      proof -
        from that have e: "first < c" "i < c" by linarith+
        with pc(6) have "mem s ! nat c < val" by linarith
        moreover have "mem s ! nat i \<le> mem s ! nat c"
          using that(1) e pc(3,5) assms(3) by (intro sorted_range_nth [OF srt]) linarith+
        ultimately show ?thesis by simp
      qed
      show "val \<le> mem s ! nat p" if "p < lst"
        by (rule pc(4))
    qed
    with lower_bound_scan [OF sub, of val]
    have "lower_bound s ?a p val = (Inr (reference_scan s first lst val), s)"
      by simp
    then show ?thesis
      using d False pc(1) by (simp add: ModelBiasedExponentialSearch_def)
  qed
qed

theorem ModelBiasedExponentialSearch_is_reference_scan_witness:
  "sorted_range scenario 0 7 \<and> (0 :: int) \<le> 4 \<and> (4 :: int) < 7 \<and>
   ModelBiasedExponentialSearch scenario 0 7 4 3 = Some (Inr 1, scenario)"
proof -
  have h: "sorted_range scenario 0 7"
    by code_simp
  have "reference_scan scenario 0 7 3 = 1"
    by code_simp
  then show ?thesis
    using ModelBiasedExponentialSearch_is_reference_scan [OF h, of 4 3] h by simp
qed

subsection \<open>The reads of \<open>BinarySearch_Branchless\<close>\<close>

text \<open>
  When the length of the range lies strictly between two powers of two,
  \<open>BinarySearch_Branchless\<close> reads inside the array only and returns a position; the
  position is at most \<open>2 ^ (k + 1) - 1\<close> behind \<open>first\<close> when \<open>MINUS_ONE\<close> is \<open>-1\<close>, which may
  be behind \<open>last\<close>.
\<close>

theorem BinarySearch_Branchless_in_bounds:
  assumes "valid_range s first lst" "2 ^ k < lst - first" "lst - first < 2 ^ Suc k" "k < 63"
  shows "\<exists>r. BinarySearch_Branchless s first lst prd val = (Inr r, s) \<and>
     first + MINUS_ONE s + 1 \<le> r \<and> r \<le> first + MINUS_ONE s + 2 ^ Suc k"
proof -
  have i: "initial_step (distance first lst) = 2 ^ k" "bsr (distance first lst) = int k"
    using initial_step_distance [of k lst first] assms(2,3,4) by simp_all
  have "0 \<le> first" "first + 2 ^ k < int (length (mem s))"
    using assms(1,2) by (auto simp: valid_range_def)
  from Branchless_loop_in_bounds [OF this, of "MINUS_ONE s" val] obtain p where
    p: "Branchless_loop s first (2 ^ k) (MINUS_ONE s) val = (Inr p, s)" "MINUS_ONE s \<le> p"
      "p < MINUS_ONE s + 2 * 2 ^ k"
    by auto
  then show ?thesis
    using i by (simp add: BinarySearch_Branchless_def Branchless_descent_def)
qed

theorem BinarySearch_Branchless_in_bounds_witness:
  "valid_range scenario 0 7 \<and> (2 :: int) ^ 2 < 7 - 0 \<and> (7 :: int) - 0 < 2 ^ Suc 2 \<and> (2 :: nat) < 63 \<and>
   (\<exists>r. BinarySearch_Branchless scenario 0 7 0 5 = (Inr r, scenario) \<and>
      0 + MINUS_ONE scenario + 1 \<le> r \<and> r \<le> 0 + MINUS_ONE scenario + 2 ^ Suc 2)"
proof -
  have v: "valid_range scenario 0 7"
    by code_simp
  have a: "(2 :: int) ^ 2 < 7 - 0" "(7 :: int) - 0 < 2 ^ Suc 2" "(2 :: nat) < 63"
    by simp_all
  from BinarySearch_Branchless_in_bounds [OF v a, of 0 5] v a show ?thesis
    by blast
qed

text \<open>
  When the length of the range is a power of two and the range ends where the
  array ends, the first probe of \<open>BinarySearch_Branchless\<close> is at \<open>last\<close>, behind the array.
\<close>

theorem BinarySearch_Branchless_power_of_two:
  assumes "lst - first = 2 ^ k" "k < 63" "lst = int (length (mem s))"
  shows "BinarySearch_Branchless s first lst prd val = (Inl (OutOfBounds lst), s)"
proof -
  have i: "initial_step (distance first lst) = 2 ^ k" "bsr (distance first lst) = int k"
    using initial_step_distance [of k lst first] assms(1,2) by simp_all
  have l: "first + 2 ^ k = lst"
    using assms(1) by simp
  have "deref s lst = Inl (OutOfBounds lst)"
    using assms(3) by (simp add: deref_def)
  then have "Branchless_loop s first (2 ^ k) (MINUS_ONE s) val = (Inl (OutOfBounds lst), s)"
    using l by (subst Branchless_loop.simps) simp
  then show ?thesis
    using i by (simp add: BinarySearch_Branchless_def Branchless_descent_def)
qed

theorem BinarySearch_Branchless_power_of_two_witness:
  "(8 :: int) - 0 = 2 ^ 3 \<and> (3 :: nat) < 63 \<and> (8 :: int) = int (length (mem scenario_in_array)) \<and>
   BinarySearch_Branchless scenario_in_array 0 8 0 5 = (Inl (OutOfBounds 8), scenario_in_array)"
proof -
  have a: "(8 :: int) - 0 = 2 ^ 3" "(3 :: nat) < 63"
    by simp_all
  have l: "(8 :: int) = int (length (mem scenario_in_array))"
    by (simp add: scenario_in_array_def)
  from BinarySearch_Branchless_power_of_two [OF a l, of 0 5] a l show ?thesis
    by blast
qed

end
